theory Spec2Isabelle
  imports Main "HOL-Library.Sublist"
begin

section \<open>Text primitives of the host language\<close>

text \<open>
  The extractor of \<^verbatim>\<open>app.py\<close> works on Python strings. The model reads a text as a list of
  characters, each one of the 256 code points from 0 to 255 (ASCII and Latin-1), and classifies
  them as \<^verbatim>\<open>str\<close> and \<^verbatim>\<open>re\<close> do on these code points. The ranges \<^verbatim>\<open>A-Z\<close>, \<^verbatim>\<open>a-z\<close> and the class
  \<^verbatim>\<open>\d\<close> hold ASCII characters only.
\<close>

definition nl :: char where
  "nl = CHR 0x0A"

definition is_digit :: "char \<Rightarrow> bool" where
  "is_digit c \<longleftrightarrow> (48::nat) \<le> of_char c \<and> (of_char c :: nat) \<le> 57"

definition is_upper :: "char \<Rightarrow> bool" where
  "is_upper c \<longleftrightarrow> (65::nat) \<le> of_char c \<and> (of_char c :: nat) \<le> 90"

definition is_lower :: "char \<Rightarrow> bool" where
  "is_lower c \<longleftrightarrow> (97::nat) \<le> of_char c \<and> (of_char c :: nat) \<le> 122"

text \<open>White space as \<^verbatim>\<open>str.strip\<close> and the class \<^verbatim>\<open>\s\<close> see it: tab, line feed, vertical tab,
  form feed, carriage return, the four separators 0x1C to 0x1F, the blank, the next-line
  control 0x85 and the no-break space 0xA0.\<close>

definition is_space :: "char \<Rightarrow> bool" where
  "is_space c \<longleftrightarrow> ((9::nat) \<le> of_char c \<and> (of_char c :: nat) \<le> 13)
     \<or> ((28::nat) \<le> of_char c \<and> (of_char c :: nat) \<le> 32)
     \<or> (of_char c :: nat) = 133 \<or> (of_char c :: nat) = 160"

text \<open>The alphanumeric characters above ASCII: the ordinal indicators 0xAA and 0xBA, the
  superscript digits 0xB2, 0xB3 and 0xB9, the micro sign 0xB5, the fractions 0xBC to 0xBE, and the
  letters 0xC0 to 0xFF without the signs of multiplication (0xD7) and division (0xF7).\<close>

definition is_latin_alnum :: "char \<Rightarrow> bool" where
  "is_latin_alnum c \<longleftrightarrow>
     (of_char c :: nat) = 170 \<or> (of_char c :: nat) = 178 \<or> (of_char c :: nat) = 179
     \<or> (of_char c :: nat) = 181 \<or> (of_char c :: nat) = 185 \<or> (of_char c :: nat) = 186
     \<or> ((188::nat) \<le> of_char c \<and> (of_char c :: nat) \<le> 190)
     \<or> ((192::nat) \<le> of_char c \<and> (of_char c :: nat) \<le> 214)
     \<or> ((216::nat) \<le> of_char c \<and> (of_char c :: nat) \<le> 246)
     \<or> ((248::nat) \<le> of_char c \<and> (of_char c :: nat) \<le> 255)"

text \<open>The word characters of \<^verbatim>\<open>\b\<close> and \<^verbatim>\<open>\w\<close>: the alphanumeric characters and the
  underscore.\<close>

definition is_word :: "char \<Rightarrow> bool" where
  "is_word c \<longleftrightarrow> is_digit c \<or> is_upper c \<or> is_lower c \<or> c = CHR ''_'' \<or> is_latin_alnum c"

text \<open>The capital letters above ASCII, 0xC0 to 0xDE without 0xD7, and the small letters that
  have their capital among the 256 characters, 0xE0 to 0xFE without 0xF7. As in ASCII, the small
  letter is 32 above its capital.\<close>

definition is_latin_upper :: "char \<Rightarrow> bool" where
  "is_latin_upper c \<longleftrightarrow>
     (192::nat) \<le> of_char c \<and> (of_char c :: nat) \<le> 222 \<and> (of_char c :: nat) \<noteq> 215"

definition is_latin_lower :: "char \<Rightarrow> bool" where
  "is_latin_lower c \<longleftrightarrow>
     (224::nat) \<le> of_char c \<and> (of_char c :: nat) \<le> 254 \<and> (of_char c :: nat) \<noteq> 247"

text \<open>\<^verbatim>\<open>str.lower\<close> on one character.\<close>

definition lower_char :: "char \<Rightarrow> char" where
  "lower_char c =
     (if is_upper c \<or> is_latin_upper c then char_of (of_char c + (32::nat)) else c)"

text \<open>The capital that the matcher tries for a character of a class under
  \<^verbatim>\<open>re.IGNORECASE\<close>. The capitals of 0xB5 and 0xFF lie outside the 256 characters and in no class
  of the patterns, so these two characters are left as they are.\<close>

definition upper_char :: "char \<Rightarrow> char" where
  "upper_char c =
     (if is_lower c \<or> is_latin_lower c then char_of (of_char c - (32::nat)) else c)"

definition lower :: "string \<Rightarrow> string" where
  "lower s = map lower_char s"

definition strip :: "string \<Rightarrow> string" where
  "strip s = rev (dropWhile is_space (rev (dropWhile is_space s)))"

text \<open>\<^verbatim>\<open>s.split(c)\<close>: the pieces between the occurrences of \<^verbatim>\<open>c\<close>; never an empty list.\<close>

fun split_on :: "char \<Rightarrow> string \<Rightarrow> string list" where
  "split_on c [] = [[]]"
| "split_on c (x # xs) =
     (if x = c then [] # split_on c xs
      else (case split_on c xs of [] \<Rightarrow> [[x]] | l # ls \<Rightarrow> (x # l) # ls))"

text \<open>\<^verbatim>\<open>p in s\<close> on strings, and \<^verbatim>\<open>s.endswith(p)\<close>.\<close>

fun contains :: "string \<Rightarrow> string \<Rightarrow> bool" where
  "contains p [] = (p = [])"
| "contains p (x # xs) = (prefix p (x # xs) \<or> contains p xs)"

definition endswith :: "string \<Rightarrow> string \<Rightarrow> bool" where
  "endswith s p = suffix p s"

datatype py_error = TypeError | AttributeError

section \<open>Regular expressions\<close>

text \<open>
  The fragment of Python's \<^verbatim>\<open>re\<close> syntax that the patterns of \<^verbatim>\<open>app.py\<close> use. A class item is
  \<^verbatim>\<open>\d\<close>, \<^verbatim>\<open>\s\<close>, a range or one character; \<open>Rep lo hi r\<close> is the greedy repetition
  \<^verbatim>\<open>r{lo,hi}\<close>, without upper bound when \<open>hi = None\<close>; \<open>Grp\<close> is a capturing group, numbered
  by the position of its opening parenthesis.
\<close>

datatype citem = Digit | Space | Range char char | One char

datatype re =
    Eps
  | Lit char
  | Cls "citem list"
  | Bnd
  | Bol
  | Eol
  | Seq re re
  | Alt re re
  | Grp re
  | Rep nat "nat option" re

definition Opt :: "re \<Rightarrow> re" where
  "Opt r = Rep 0 (Some 1) r"

definition Star :: "re \<Rightarrow> re" where
  "Star r = Rep 0 None r"

definition Plus :: "re \<Rightarrow> re" where
  "Plus r = Rep 1 None r"

definition Times :: "nat \<Rightarrow> re \<Rightarrow> re" where
  "Times k r = Rep k (Some k) r"

definition seqs :: "re list \<Rightarrow> re" where
  "seqs rs = foldr Seq rs Eps"

definition alts :: "re list \<Rightarrow> re" where
  "alts rs = (case rs of [] \<Rightarrow> Eps | _ \<Rightarrow> foldr Alt (butlast rs) (last rs))"

definition lit :: "string \<Rightarrow> re" where
  "lit s = seqs (map Lit s)"

primrec ngroups :: "re \<Rightarrow> nat" where
  "ngroups Eps = 0"
| "ngroups (Lit c) = 0"
| "ngroups (Cls cs) = 0"
| "ngroups Bnd = 0"
| "ngroups Bol = 0"
| "ngroups Eol = 0"
| "ngroups (Seq a b) = ngroups a + ngroups b"
| "ngroups (Alt a b) = ngroups a + ngroups b"
| "ngroups (Grp r) = Suc (ngroups r)"
| "ngroups (Rep lo hi r) = ngroups r"

text \<open>
  A position of the matcher: the text left of the cursor (nearest character first), the text
  right of it, and the groups captured so far (latest first).
\<close>

record mstate =
  left :: string
  rest :: string
  caps :: "(nat \<times> string) list"

primrec item_has :: "citem \<Rightarrow> char \<Rightarrow> bool" where
  "item_has Digit c = is_digit c"
| "item_has Space c = is_space c"
| "item_has (Range a b) c = ((of_char a :: nat) \<le> of_char c \<and> (of_char c :: nat) \<le> of_char b)"
| "item_has (One a) c = (c = a)"

definition in_class :: "bool \<Rightarrow> citem list \<Rightarrow> char \<Rightarrow> bool" where
  "in_class ic items c \<longleftrightarrow>
     (\<exists>i \<in> set items. item_has i c \<or> (ic \<and> (item_has i (lower_char c) \<or> item_has i (upper_char c))))"

definition eq_char :: "bool \<Rightarrow> char \<Rightarrow> char \<Rightarrow> bool" where
  "eq_char ic a c \<longleftrightarrow> (if ic then lower_char a = lower_char c else a = c)"

definition word_at :: "string \<Rightarrow> bool" where
  "word_at s = (case s of [] \<Rightarrow> False | c # _ \<Rightarrow> is_word c)"

definition at_boundary :: "string \<Rightarrow> string \<Rightarrow> bool" where
  "at_boundary l r \<longleftrightarrow> word_at l \<noteq> word_at r"

definition step_char :: "(char \<Rightarrow> bool) \<Rightarrow> mstate \<Rightarrow> mstate list" where
  "step_char p st =
     (case rest st of
        [] \<Rightarrow> []
      | d # ds \<Rightarrow> if p d then [st\<lparr>left := d # left st, rest := ds\<rparr>] else [])"

text \<open>The text a group has consumed between two positions.\<close>

definition consumed :: "mstate \<Rightarrow> mstate \<Rightarrow> string" where
  "consumed st st' = take (length (rest st) - length (rest st')) (rest st)"

text \<open>
  Greedy repetition: one more round is tried before stopping, and at least \<open>lo\<close> rounds are
  required. The second counter bounds the rounds.
\<close>

fun iter :: "(mstate \<Rightarrow> mstate list) \<Rightarrow> nat \<Rightarrow> nat \<Rightarrow> mstate \<Rightarrow> mstate list" where
  "iter f lo 0 st = (if lo = 0 then [st] else [])"
| "iter f lo (Suc k) st =
     concat (map (iter f (lo - 1) k) (f st)) @ (if lo = 0 then [st] else [])"

definition progressing :: "(mstate \<Rightarrow> mstate list) \<Rightarrow> mstate \<Rightarrow> mstate list" where
  "progressing f st = filter (\<lambda>s. length (rest s) < length (rest st)) (f st)"

text \<open>
  The backtracking matcher: all the ways in which \<open>r\<close> matches at a position, in the order in
  which Python's matcher tries them (the first is the one it returns). \<open>ic\<close> is the flag
  \<^verbatim>\<open>re.IGNORECASE\<close> and \<open>n\<close> the number of the next group that opens. An unbounded repetition
  goes on only while a round consumes text, so the length of the remaining text bounds it.
\<close>

primrec rmatch :: "bool \<Rightarrow> re \<Rightarrow> nat \<Rightarrow> mstate \<Rightarrow> mstate list" where
  "rmatch ic Eps n st = [st]"
| "rmatch ic (Lit c) n st = step_char (eq_char ic c) st"
| "rmatch ic (Cls items) n st = step_char (in_class ic items) st"
| "rmatch ic Bnd n st = (if at_boundary (left st) (rest st) then [st] else [])"
| "rmatch ic Bol n st = (if left st = [] then [st] else [])"
| "rmatch ic Eol n st = (if rest st = [] \<or> rest st = [nl] then [st] else [])"
| "rmatch ic (Seq a b) n st = concat (map (rmatch ic b (n + ngroups a)) (rmatch ic a n st))"
| "rmatch ic (Alt a b) n st = rmatch ic a n st @ rmatch ic b (n + ngroups a) st"
| "rmatch ic (Grp r) n st =
     map (\<lambda>s. s\<lparr>caps := (n, consumed st s) # caps s\<rparr>) (rmatch ic r (Suc n) st)"
| "rmatch ic (Rep lo hi r) n st =
     (case hi of
        Some h \<Rightarrow> iter (rmatch ic r n) lo h st
      | None \<Rightarrow> iter (progressing (rmatch ic r n)) lo (lo + length (rest st)) st)"

text \<open>\<^verbatim>\<open>re.match\<close>: the first way of matching at the start of the text.\<close>

definition re_match :: "bool \<Rightarrow> re \<Rightarrow> string \<Rightarrow> mstate option" where
  "re_match ic r s =
     (case rmatch ic r 1 \<lparr>left = [], rest = s, caps = []\<rparr> of [] \<Rightarrow> None | m # _ \<Rightarrow> Some m)"

text \<open>\<^verbatim>\<open>re.search\<close>: the first way of matching at the leftmost position that has one.\<close>

fun search_from :: "bool \<Rightarrow> re \<Rightarrow> string \<Rightarrow> string \<Rightarrow> mstate option" where
  "search_from ic r l [] =
     (case rmatch ic r 1 \<lparr>left = l, rest = [], caps = []\<rparr> of [] \<Rightarrow> None | m # _ \<Rightarrow> Some m)"
| "search_from ic r l (c # cs) =
     (case rmatch ic r 1 \<lparr>left = l, rest = c # cs, caps = []\<rparr> of
        [] \<Rightarrow> search_from ic r (c # l) cs
      | m # _ \<Rightarrow> Some m)"

definition re_search :: "bool \<Rightarrow> re \<Rightarrow> string \<Rightarrow> mstate option" where
  "re_search ic r s = search_from ic r [] s"

text \<open>\<^verbatim>\<open>m.group(k)\<close> for \<open>k > 0\<close>: \<open>None\<close> when the group took no part in the match.\<close>

definition group :: "mstate \<Rightarrow> nat \<Rightarrow> string option" where
  "group m k = map_of (caps m) k"

text \<open>
  \<^verbatim>\<open>re.sub(r, repl, s)\<close>: the text is scanned from the left; where \<open>r\<close> matches, the match is
  replaced by \<open>repl\<close> and the scan goes on behind it. The counter is the number of characters
  of the current match that are still to be dropped.
\<close>

fun sub_from :: "bool \<Rightarrow> re \<Rightarrow> string \<Rightarrow> string \<Rightarrow> string \<Rightarrow> nat \<Rightarrow> string" where
  "sub_from ic r repl l [] k =
     (if k = 0 \<and> rmatch ic r 1 \<lparr>left = l, rest = [], caps = []\<rparr> \<noteq> [] then repl else [])"
| "sub_from ic r repl l (c # cs) (Suc k) = sub_from ic r repl (c # l) cs k"
| "sub_from ic r repl l (c # cs) 0 =
     (case rmatch ic r 1 \<lparr>left = l, rest = c # cs, caps = []\<rparr> of
        [] \<Rightarrow> c # sub_from ic r repl (c # l) cs 0
      | m # _ \<Rightarrow>
         (let len = length (c # cs) - length (rest m) in
          if len = 0 then repl @ c # sub_from ic r repl (c # l) cs 0
          else repl @ sub_from ic r repl (c # l) cs (len - 1)))"

definition re_sub :: "bool \<Rightarrow> re \<Rightarrow> string \<Rightarrow> string \<Rightarrow> string" where
  "re_sub ic r repl s = sub_from ic r repl [] s 0"

section \<open>The patterns of the extractor\<close>

definition digit :: re where
  "digit = Cls [Digit]"

definition space :: re where
  "space = Cls [Space]"

text \<open>\<^verbatim>\<open>[-.\s]\<close>, the separator inside a phone number.\<close>

definition sep :: re where
  "sep = Cls [One (CHR ''-''), One (CHR ''.''), Space]"

text \<open>\<^verbatim>\<open>(\+?\d{1,3}[-.\s]?)?\(?\d{3}\)?[-.\s]?\d{3}[-.\s]?\d{4}\b\<close>\<close>

definition phone_pattern :: re where
  "phone_pattern =
     seqs [Opt (Grp (seqs [Opt (Lit (CHR ''+'')), Rep 1 (Some 3) digit, Opt sep])),
           Opt (Lit (CHR ''('')), Times 3 digit, Opt (Lit (CHR '')'')), Opt sep,
           Times 3 digit, Opt sep, Times 4 digit, Bnd]"

definition is_likely_phone_number :: "string \<Rightarrow> bool" where
  "is_likely_phone_number text = (re_search False phone_pattern text \<noteq> None)"

definition dosage_keywords :: "string list" where
  "dosage_keywords =
     [''mg'', ''ml'', ''g'', ''mcg'', ''tablet'', ''capsule'', ''spoon'', ''drops'', ''puff'']"

definition frequency_keywords :: "string list" where
  "frequency_keywords =
     [''daily'', ''once a day'', ''twice a day'', ''thrice a day'', ''times a day'',
      ''bd'', ''tds'', ''qid'', ''od'', ''hs'', ''sos'', ''prn'', ''before food'', ''after food'',
      ''morning'', ''noon'', ''evening'', ''night'', ''alternate day'', ''weekly'']"

text \<open>\<^verbatim>\<open>\b\d+(\.\d+)?\b\<close>: the fraction is a capturing group of its own.\<close>

definition number_pattern :: re where
  "number_pattern = seqs [Bnd, Plus digit, Opt (Grp (seqs [Lit (CHR ''.''), Plus digit])), Bnd]"

text \<open>\<^verbatim>\<open>^[A-Z][a-zA-Z0-9\s\-\.!]+$\<close>\<close>

definition name_pattern :: re where
  "name_pattern =
     seqs [Bol, Cls [Range (CHR ''A'') (CHR ''Z'')],
           Plus (Cls [Range (CHR ''a'') (CHR ''z''), Range (CHR ''A'') (CHR ''Z''),
                      Range (CHR ''0'') (CHR ''9''), Space, One (CHR ''-''), One (CHR ''.''),
                      One (CHR ''!'')]),
           Eol]"

text \<open>\<^verbatim>\<open>[!@#\$%\^&\*\(\)]\<close>\<close>

definition noise_pattern :: re where
  "noise_pattern = Cls (map One ''!@#$%^&*()'')"

text \<open>\<^verbatim>\<open>\s*\d+(\.\d+)?\s*{unit}\b\<close>\<close>

definition unit_fragment :: "string \<Rightarrow> re" where
  "unit_fragment unit =
     seqs [Star space, Plus digit, Opt (Grp (seqs [Lit (CHR ''.''), Plus digit])), Star space,
           lit unit, Bnd]"

text \<open>\<^verbatim>\<open>({number_pattern})\s*({units})\b|\b({units})\s*({number_pattern})\<close>, where
  \<^verbatim>\<open>units\<close> is the dosage keywords joined by \<^verbatim>\<open>|\<close>.\<close>

definition dosage_pattern :: re where
  "dosage_pattern =
     Alt (seqs [Grp number_pattern, Star space, Grp (alts (map lit dosage_keywords)), Bnd])
         (seqs [Bnd, Grp (alts (map lit dosage_keywords)), Star space, Grp number_pattern])"

text \<open>\<^verbatim>\<open>({number_pattern})\s*(tablet|cap)?\<close>\<close>

definition num_only_pattern :: re where
  "num_only_pattern =
     seqs [Grp number_pattern, Star space, Opt (Grp (Alt (lit ''tablet'') (lit ''cap'')))]"

text \<open>\<^verbatim>\<open>\b(\d+)\s*-\s*(\d+)\s*-\s*(\d+)\b\<close>\<close>

definition xyz_pattern :: re where
  "xyz_pattern =
     seqs [Bnd, Grp (Plus digit), Star space, Lit (CHR ''-''), Star space, Grp (Plus digit),
           Star space, Lit (CHR ''-''), Star space, Grp (Plus digit), Bnd]"

text \<open>\<^verbatim>\<open>({number_pattern})\s*({kw}|times\s*(a)?\s*day)\<close>\<close>

definition freq_num_pattern :: "string \<Rightarrow> re" where
  "freq_num_pattern kw =
     seqs [Grp number_pattern, Star space,
           Grp (Alt (lit kw)
                    (seqs [lit ''times'', Star space, Opt (Grp (Lit (CHR ''a''))), Star space,
                           lit ''day'']))]"

section \<open>The parser\<close>

record medicine =
  name :: string
  dosage :: string
  frequency :: string

text \<open>The two variables of the loop of \<^verbatim>\<open>parse_medicine_details\<close>.\<close>

record pstate =
  medicines :: "medicine list"
  current_medicine_name :: "string option"

text \<open>Truth of a value that is a string or \<^verbatim>\<open>None\<close>; its text inside an f-string; \<^verbatim>\<open>+=\<close>
  and \<^verbatim>\<open>.strip()\<close> on it, which raise on \<^verbatim>\<open>None\<close>.\<close>

definition truthy :: "string option \<Rightarrow> bool" where
  "truthy v = (case v of None \<Rightarrow> False | Some s \<Rightarrow> s \<noteq> [])"

definition fmt :: "string option \<Rightarrow> string" where
  "fmt v = (case v of None \<Rightarrow> ''None'' | Some s \<Rightarrow> s)"

definition py_add :: "string option \<Rightarrow> string \<Rightarrow> py_error + string option" where
  "py_add v s = (case v of None \<Rightarrow> Inl TypeError | Some a \<Rightarrow> Inr (Some (a @ s)))"

definition py_strip :: "string option \<Rightarrow> py_error + string" where
  "py_strip v = (case v of None \<Rightarrow> Inl AttributeError | Some a \<Rightarrow> Inr (strip a))"

text \<open>Lines 88 to 91: the first unit that ends the name has its fragment removed.\<close>

fun strip_unit :: "string list \<Rightarrow> string \<Rightarrow> string" where
  "strip_unit [] nm = nm"
| "strip_unit (unit # units) nm =
     (if endswith (lower nm) ('' '' @ unit) then strip (re_sub True (unit_fragment unit) [] nm)
      else strip_unit units nm)"

text \<open>Lines 94 to 113: the value of the variable \<^verbatim>\<open>dosage\<close>.\<close>

definition extract_dosage :: "string \<Rightarrow> string option \<Rightarrow> py_error + string option" where
  "extract_dosage line_lower cur =
     (case re_search True dosage_pattern line_lower of
        Some m \<Rightarrow>
          if truthy (group m 1) \<and> truthy (group m 2)
          then Inr (Some (fmt (group m 1) @ '' '' @ fmt (group m 2)))
          else if truthy (group m 3) \<and> truthy (group m 4)
          then Inr (Some (fmt (group m 4) @ '' '' @ fmt (group m 3)))
          else Inr (Some ''Not specified'')
      | None \<Rightarrow>
         (case re_search False num_only_pattern line_lower of
            Some m \<Rightarrow>
              if truthy cur \<or> contains ''tablet'' line_lower \<or> contains ''cap'' line_lower
              then (if contains ''tablet'' line_lower then py_add (group m 1) '' tablet(s)''
                    else if contains ''cap'' line_lower then py_add (group m 1) '' capsule(s)''
                    else Inr (group m 1))
              else Inr (Some ''Not specified'')
          | None \<Rightarrow> Inr (Some ''Not specified'')))"

text \<open>Lines 119 to 125: the loop over the frequency keywords, with the value of
  \<^verbatim>\<open>frequency\<close> so far. The test \<^verbatim>\<open>"times" in freq_num_match.group(2)\<close> raises when the
  group is \<^verbatim>\<open>None\<close>.\<close>

fun keyword_scan :: "string \<Rightarrow> string list \<Rightarrow> string \<Rightarrow> py_error + string" where
  "keyword_scan line_lower [] freq = Inr freq"
| "keyword_scan line_lower (kw # kws) freq =
     (case re_search True (freq_num_pattern kw) line_lower of
        None \<Rightarrow> if contains kw line_lower then Inr kw else keyword_scan line_lower kws freq
      | Some m \<Rightarrow>
         (case group m 2 of
            None \<Rightarrow> Inl TypeError
          | Some g \<Rightarrow>
              if contains ''times'' g
              then keyword_scan line_lower kws (fmt (group m 1) @ '' '' @ g)
              else if contains kw line_lower then Inr kw
              else keyword_scan line_lower kws freq))"

text \<open>Lines 115 to 125: the value of the variable \<^verbatim>\<open>frequency\<close>.\<close>

definition extract_frequency :: "string \<Rightarrow> py_error + string" where
  "extract_frequency line_lower =
     (case re_search False xyz_pattern line_lower of
        Some m \<Rightarrow>
          Inr (''Morning: '' @ fmt (group m 1) @ '', Afternoon: '' @ fmt (group m 2)
               @ '', Night: '' @ fmt (group m 3))
      | None \<Rightarrow> keyword_scan line_lower frequency_keywords ''Not specified'')"

text \<open>The test of line 86.\<close>

definition is_name_line :: "string \<Rightarrow> bool" where
  "is_name_line line \<longleftrightarrow>
     re_match False name_pattern line \<noteq> None
     \<and> \<not> (\<exists>freq \<in> set frequency_keywords. contains freq (lower line))"

text \<open>Lines 87 to 91.\<close>

definition clean_name :: "string \<Rightarrow> string" where
  "clean_name line = strip_unit dosage_keywords (strip (re_sub False noise_pattern [] line))"

text \<open>Lines 127 to 133.\<close>

definition emit :: "pstate \<Rightarrow> string option \<Rightarrow> string \<Rightarrow> py_error + pstate" where
  "emit st dos freq =
     (case current_medicine_name st of
        None \<Rightarrow> Inr st
      | Some nm \<Rightarrow>
          if nm = [] then Inr st
          else (case py_strip dos of
                  Inl e \<Rightarrow> Inl e
                | Inr d \<Rightarrow>
                    Inr \<lparr>medicines = medicines st
                           @ [\<lparr>name = strip nm, dosage = d, frequency = strip freq\<rparr>],
                         current_medicine_name = None\<rparr>))"

text \<open>The body of the loop over the lines (lines 77 to 133).\<close>

definition process_line :: "pstate \<Rightarrow> string \<Rightarrow> py_error + pstate" where
  "process_line st raw =
     (let line = strip raw; line_lower = lower line in
      if line = [] then Inr st
      else if is_likely_phone_number line then Inr st
      else if is_name_line line
      then Inr (st\<lparr>current_medicine_name := Some (clean_name line)\<rparr>)
      else (case extract_dosage line_lower (current_medicine_name st) of
              Inl e \<Rightarrow> Inl e
            | Inr dos \<Rightarrow>
               (case extract_frequency line_lower of
                  Inl e \<Rightarrow> Inl e
                | Inr freq \<Rightarrow> emit st dos freq)))"

fun run_lines :: "pstate \<Rightarrow> string list \<Rightarrow> py_error + pstate" where
  "run_lines st [] = Inr st"
| "run_lines st (l # ls) =
     (case process_line st l of Inl e \<Rightarrow> Inl e | Inr st' \<Rightarrow> run_lines st' ls)"

definition sentinel :: medicine where
  "sentinel = \<lparr>name = ''Could not parse medicine details'', dosage = [], frequency = []\<rparr>"

definition parse_medicine_details :: "string \<Rightarrow> py_error + medicine list" where
  "parse_medicine_details text =
     (case run_lines \<lparr>medicines = [], current_medicine_name = None\<rparr> (split_on nl text) of
        Inl e \<Rightarrow> Inl e
      | Inr st \<Rightarrow>
          if medicines st = [] \<and> strip text \<noteq> [] then Inr [sentinel]
          else Inr (medicines st))"

section \<open>Kinds of lines\<close>

text \<open>
  The loop body sorts a line by the tests of lines 79, 82 and 86: a line that is blank after
  trimming or that the phone-number filter recognises is passed over; of the others, a line
  that passes the test of line 86 sets the pending name, and every other line is read for its
  details.
\<close>

definition skipped_line :: "string \<Rightarrow> bool" where
  "skipped_line raw \<longleftrightarrow> strip raw = [] \<or> is_likely_phone_number (strip raw)"

definition name_line :: "string \<Rightarrow> bool" where
  "name_line raw \<longleftrightarrow> \<not> skipped_line raw \<and> is_name_line (strip raw)"

definition detail_line :: "string \<Rightarrow> bool" where
  "detail_line raw \<longleftrightarrow> \<not> skipped_line raw \<and> \<not> is_name_line (strip raw)"

section \<open>The shapes of the specification\<close>

text \<open>
  The phone-number shape in the words of the specification, to be compared with the pattern of
  \<^verbatim>\<open>is_likely_phone_number\<close>: an optional country code (an optional \<open>+\<close>, one to three digits
  and an optional separator), then groups of three, three and four digits; the first group
  may have a parenthesis before and after it, and a separator may follow the first and the
  second group. A separator is a hyphen, a dot or a white-space character.
\<close>

definition opt_sep :: "string \<Rightarrow> bool" where
  "opt_sep s \<longleftrightarrow> s = [] \<or> (\<exists>c. s = [c] \<and> (c = CHR ''-'' \<or> c = CHR ''.'' \<or> is_space c))"

definition digit_group :: "nat \<Rightarrow> string \<Rightarrow> bool" where
  "digit_group k s \<longleftrightarrow> length s = k \<and> list_all is_digit s"

definition country_code :: "string \<Rightarrow> bool" where
  "country_code s \<longleftrightarrow>
     (\<exists>p d x. s = p @ d @ x \<and> (p = [] \<or> p = ''+'') \<and> 1 \<le> length d \<and> length d \<le> 3
        \<and> list_all is_digit d \<and> opt_sep x)"

definition phone_shape :: "string \<Rightarrow> bool" where
  "phone_shape s \<longleftrightarrow>
     (\<exists>cc lp a rp s1 b s2 c.
        s = cc @ lp @ a @ rp @ s1 @ b @ s2 @ c
        \<and> (cc = [] \<or> country_code cc) \<and> (lp = [] \<or> lp = ''('') \<and> digit_group 3 a
        \<and> (rp = [] \<or> rp = '')'') \<and> opt_sep s1 \<and> digit_group 3 b \<and> opt_sep s2
        \<and> digit_group 4 c)"

text \<open>A run of three, three and four digits with optional separators between the groups.\<close>

definition digit_run :: "string \<Rightarrow> bool" where
  "digit_run s \<longleftrightarrow>
     (\<exists>a s1 b s2 c. s = a @ s1 @ b @ s2 @ c \<and> digit_group 3 a \<and> opt_sep s1 \<and> digit_group 3 b
        \<and> opt_sep s2 \<and> digit_group 4 c)"



section \<open>Facts about the text primitives\<close>

lemma strip_all_space: "(\<forall>c \<in> set s. is_space c) \<Longrightarrow> strip s = []"
proof -
  assume "\<forall>c \<in> set s. is_space c"
  then have "dropWhile is_space s = []" by simp
  then show ?thesis unfolding strip_def by (simp only: rev.simps dropWhile.simps)
qed

lemma strip_Cons_keep: "\<not> is_space c \<Longrightarrow> \<exists>t. strip (c # r) = c # t"
proof -
  assume c: "\<not> is_space c"
  have "dropWhile is_space (rev r @ [c]) \<noteq> []"
    by (simp add: dropWhile_append3 c)
  moreover have "last (dropWhile is_space (rev r @ [c])) = c"
    by (metis (no_types, lifting) c dropWhile_append dropWhile.simps(2) last_appendR last_snoc
        dropWhile_eq_Nil_conv not_Cons_self2)
  ultimately obtain u where "dropWhile is_space (rev r @ [c]) = u @ [c]"
    by (metis append_butlast_last_id)
  then show ?thesis using c by (simp add: strip_def)
qed

lemma split_on_subset: "l \<in> set (split_on c s) \<Longrightarrow> set l \<subseteq> set s"
proof (induction s arbitrary: l)
  case Nil
  then show ?case by simp
next
  case (Cons x xs)
  show ?case
  proof (cases "split_on c xs")
    case Nil
    with Cons show ?thesis by (auto split: if_splits)
  next
    case (Cons h t)
    have h: "set h \<subseteq> set xs" using Cons.IH [of h] Cons by simp
    have t: "\<And>k. k \<in> set t \<Longrightarrow> set k \<subseteq> set xs" using Cons.IH Cons by simp
    from Cons.prems Cons h t show ?thesis by (auto split: if_splits)
  qed
qed

section \<open>Blank lines and blank texts\<close>

lemma process_blank: "strip raw = [] \<Longrightarrow> process_line st raw = Inr st"
  by (simp add: process_line_def)

lemma run_blank: "\<forall>l \<in> set ls. strip l = [] \<Longrightarrow> run_lines st ls = Inr st"
  by (induction ls) (simp_all add: process_blank)

text \<open>
  Claim C6. For every text that is empty or consists of white space only (the characters that
  \<^verbatim>\<open>str.strip\<close> trims, the no-break space among them), the parser returns the empty sequence
  of records: no error and no sentinel record.
\<close>

theorem blank_text_yields_no_record:
  "\<forall>c \<in> set text. is_space c \<Longrightarrow> parse_medicine_details text = Inr []"
proof -
  assume a: "\<forall>c \<in> set text. is_space c"
  have "\<forall>l \<in> set (split_on nl text). strip l = []"
    using a split_on_subset by (blast intro: strip_all_space)
  then have "run_lines \<lparr>medicines = [], current_medicine_name = None\<rparr> (split_on nl text)
      = Inr \<lparr>medicines = [], current_medicine_name = None\<rparr>"
    by (rule run_blank)
  then show ?thesis using strip_all_space [OF a] by (simp add: parse_medicine_details_def)
qed

theorem blank_text_yields_no_record_witness:
  "list_all is_space ('' '' @ [nl, CHR 0x09, CHR 0xA0] @ ''  '')
   \<and> parse_medicine_details ('' '' @ [nl, CHR 0x09, CHR 0xA0] @ ''  '') = Inr []"
proof -
  have h: "\<forall>c \<in> set ('' '' @ [nl, CHR 0x09, CHR 0xA0] @ ''  ''). is_space c"
    by (simp add: is_space_def nl_def)
  show ?thesis
    using blank_text_yields_no_record [OF h] h by (simp add: list_all_iff)
qed

text \<open>
  Claim C5, as stated: a text that is non-empty before trimming and yields no record makes the
  parser return the sentinel record. The text of one blank is non-empty and yields no record,
  and the parser returns the empty sequence for it: the test of line 135 looks at the trimmed
  text.
\<close>

theorem sentinel_untrimmed_counterexample:
  "'' '' \<noteq> []
   \<and> run_lines \<lparr>medicines = [], current_medicine_name = None\<rparr> (split_on nl '' '')
       = Inr \<lparr>medicines = [], current_medicine_name = None\<rparr>
   \<and> parse_medicine_details '' '' = Inr []
   \<and> parse_medicine_details '' '' \<noteq> Inr [sentinel]"
  by code_simp

text \<open>
  Claim C5, amended: for every text that is non-empty after trimming, if the loop over its
  lines ends with no record, the parser returns exactly the sentinel record.
\<close>

theorem sentinel_when_nothing_parsed:
  "strip text \<noteq> [] \<Longrightarrow>
   run_lines \<lparr>medicines = [], current_medicine_name = None\<rparr> (split_on nl text) = Inr st \<Longrightarrow>
   medicines st = [] \<Longrightarrow>
   parse_medicine_details text = Inr [sentinel]"
  by (simp add: parse_medicine_details_def)

theorem sentinel_when_nothing_parsed_witness:
  "strip (''CallDoctor'' @ [nl] @ ''+1-800-555-1234'') \<noteq> []
   \<and> run_lines \<lparr>medicines = [], current_medicine_name = None\<rparr>
        (split_on nl (''CallDoctor'' @ [nl] @ ''+1-800-555-1234''))
       = Inr \<lparr>medicines = [], current_medicine_name = Some ''CallDoctor''\<rparr>
   \<and> parse_medicine_details (''CallDoctor'' @ [nl] @ ''+1-800-555-1234'') = Inr [sentinel]"
proof -
  have h1: "strip (''CallDoctor'' @ [nl] @ ''+1-800-555-1234'') \<noteq> []"
    by code_simp
  have h2: "run_lines \<lparr>medicines = [], current_medicine_name = None\<rparr>
        (split_on nl (''CallDoctor'' @ [nl] @ ''+1-800-555-1234''))
       = Inr \<lparr>medicines = [], current_medicine_name = Some ''CallDoctor''\<rparr>"
    by code_simp
  have h3: "medicines \<lparr>medicines = [], current_medicine_name = Some ''CallDoctor''\<rparr> = []"
    by simp
  show ?thesis
    using sentinel_when_nothing_parsed [OF h1 h2 h3] h1 h2 by simp
qed

section \<open>The worked examples\<close>

text \<open>
  Claim C1. A detail line with a number followed by a dosage unit should give the dosage
  \<open><number> <unit>\<close>. On the text \<open>Aspirin\<close>, \<open>500 mg\<close> the dosage pattern matches, but the test
  of line 102 reads group 2, which is the fraction inside the number and not the unit, so the
  dosage stays \<open>Not specified\<close>.
\<close>

theorem dosage_with_unit_not_extracted:
  "parse_medicine_details (''Aspirin'' @ [nl] @ ''500 mg'')
     = Inr [\<lparr>name = ''Aspirin'', dosage = ''Not specified'', frequency = ''Not specified''\<rparr>]"
  by code_simp

text \<open>
  Claim C2. A number followed by a frequency keyword or by \<open>times a day\<close> should give the
  frequency \<open><number> <matched text>\<close>. On the text \<open>Aspirin\<close>, \<open>2 times a day\<close> the test of line
  121 reads group 2, which took no part in the match, and the parser ends with a
  \<open>TypeError\<close>.
\<close>

theorem frequency_with_number_raises:
  "parse_medicine_details (''Aspirin'' @ [nl] @ ''2 times a day'') = Inl TypeError"
  by code_simp

text \<open>
  Claim C3, as stated: the text \<open>Paracetamol 500 mg\<close>, \<open>1-0-1\<close> gives one record with the
  dosage \<open>500 mg\<close> and the frequency \<open>Morning: 1, Afternoon: 1, Night: 0\<close>. The parser
  returns another record.
\<close>

theorem paracetamol_example_counterexample:
  "parse_medicine_details (''Paracetamol 500 mg'' @ [nl] @ ''1-0-1'')
     \<noteq> Inr [\<lparr>name = ''Paracetamol'', dosage = ''500 mg'',
              frequency = ''Morning: 1, Afternoon: 1, Night: 0''\<rparr>]"
  by code_simp

text \<open>
  Claim C3, amended: the text \<open>Paracetamol 500 mg\<close>, \<open>1-0-1\<close> gives exactly one record, with
  the name \<open>Paracetamol\<close>, the dosage \<open>1\<close> (the first bare number of the detail line) and the
  frequency \<open>Morning: 1, Afternoon: 0, Night: 1\<close> (the three numbers in their order).
\<close>

theorem paracetamol_example:
  "parse_medicine_details (''Paracetamol 500 mg'' @ [nl] @ ''1-0-1'')
     = Inr [\<lparr>name = ''Paracetamol'', dosage = ''1'',
              frequency = ''Morning: 1, Afternoon: 0, Night: 1''\<rparr>]"
  by code_simp

section \<open>Facts about the matcher\<close>

lemma concat_iter_zero: "concat (map (iter f 0 0) xs) = xs"
  by (induction xs) simp_all

lemma iter_opt: "iter f 0 (Suc 0) st = f st @ [st]"
  by (simp add: concat_iter_zero)

lemma set_step_char:
  "s' \<in> set (step_char p st) \<longleftrightarrow>
     (\<exists>d ds. rest st = d # ds \<and> p d \<and> s' = st\<lparr>left := d # left st, rest := ds\<rparr>)"
  by (cases "rest st") (auto simp: step_char_def)

lemma progressing_step_char: "progressing (step_char p) = step_char p"
proof
  fix st
  show "progressing (step_char p) st = step_char p st"
    by (cases "rest st") (simp_all add: progressing_def step_char_def)
qed

lemma set_iter_step_char:
  "s' \<in> set (iter (step_char p) lo k st) \<longleftrightarrow>
     (\<exists>w t. rest st = w @ t \<and> lo \<le> length w \<and> length w \<le> k \<and> (\<forall>c \<in> set w. p c)
        \<and> s' = st\<lparr>left := rev w @ left st, rest := t\<rparr>)"
proof (induction k arbitrary: lo st)
  case 0
  show ?case by auto
next
  case (Suc k)
  show ?case (is "?L \<longleftrightarrow> ?R")
  proof
    assume ?L
    then consider (more) s1 where "s1 \<in> set (step_char p st)" "s' \<in> set (iter (step_char p) (lo - 1) k s1)"
      | (stop) "lo = 0" "s' = st"
      by (auto split: if_splits)
    then show ?R
    proof cases
      case more
      from more(1) obtain d ds where d: "rest st = d # ds" "p d"
        "s1 = st\<lparr>left := d # left st, rest := ds\<rparr>"
        by (auto simp: set_step_char)
      from more(2) obtain w t where w: "rest s1 = w @ t" "lo - 1 \<le> length w" "length w \<le> k"
        "\<forall>c \<in> set w. p c" "s' = s1\<lparr>left := rev w @ left s1, rest := t\<rparr>"
        unfolding Suc.IH by blast
      show ?thesis
        by (rule exI [of _ "d # w"], rule exI [of _ t]) (use d w in auto)
    next
      case stop
      show ?thesis
        by (rule exI [of _ "[]"], rule exI [of _ "rest st"]) (use stop in auto)
    qed
  next
    assume ?R
    then obtain w t where w: "rest st = w @ t" "lo \<le> length w" "length w \<le> Suc k"
        "\<forall>c \<in> set w. p c" "s' = st\<lparr>left := rev w @ left st, rest := t\<rparr>"
      by blast
    show ?L
    proof (cases w)
      case Nil
      with w show ?thesis by auto
    next
      case (Cons d v)
      let ?s1 = "st\<lparr>left := d # left st, rest := v @ t\<rparr>"
      have 1: "?s1 \<in> set (step_char p st)"
        using w Cons by (auto simp: set_step_char)
      have "s' \<in> set (iter (step_char p) (lo - 1) k ?s1)"
        unfolding Suc.IH
        by (rule exI [of _ v], rule exI [of _ t]) (use w Cons in auto)
      with 1 show ?thesis by auto
    qed
  qed
qed

lemma set_rmatch_Seq:
  "s' \<in> set (rmatch ic (Seq a b) n st) \<longleftrightarrow>
     (\<exists>s1. s1 \<in> set (rmatch ic a n st) \<and> s' \<in> set (rmatch ic b (n + ngroups a) s1))"
  by auto

lemma set_rmatch_Grp:
  "s' \<in> set (rmatch ic (Grp a) n st) \<longleftrightarrow>
     (\<exists>s1. s1 \<in> set (rmatch ic a (Suc n) st) \<and> s' = s1\<lparr>caps := (n, consumed st s1) # caps s1\<rparr>)"
  by auto

lemma set_rmatch_Opt:
  "s' \<in> set (rmatch ic (Opt a) n st) \<longleftrightarrow> s' \<in> set (rmatch ic a n st) \<or> s' = st"
  by (auto simp: Opt_def concat_iter_zero)

lemma set_rmatch_Lit:
  "s' \<in> set (rmatch ic (Lit c) n st) \<longleftrightarrow>
     (\<exists>d ds. rest st = d # ds \<and> eq_char ic c d \<and> s' = st\<lparr>left := d # left st, rest := ds\<rparr>)"
  by (simp add: set_step_char)

lemma set_rmatch_Cls:
  "s' \<in> set (rmatch ic (Cls items) n st) \<longleftrightarrow>
     (\<exists>d ds. rest st = d # ds \<and> in_class ic items d
        \<and> s' = st\<lparr>left := d # left st, rest := ds\<rparr>)"
  by (simp add: set_step_char)

lemma set_rmatch_Bnd:
  "s' \<in> set (rmatch ic Bnd n st) \<longleftrightarrow> at_boundary (left st) (rest st) \<and> s' = st"
  by auto

lemma set_rmatch_Rep_Cls:
  "s' \<in> set (rmatch ic (Rep lo (Some h) (Cls items)) n st) \<longleftrightarrow>
     (\<exists>w t. rest st = w @ t \<and> lo \<le> length w \<and> length w \<le> h
        \<and> (\<forall>c \<in> set w. in_class ic items c) \<and> s' = st\<lparr>left := rev w @ left st, rest := t\<rparr>)"
proof -
  have "rmatch ic (Cls items) n = step_char (in_class ic items)" by (rule ext) simp
  then show ?thesis by (simp add: set_iter_step_char)
qed

lemma iter_invariant:
  assumes step: "\<And>s s1. s1 \<in> set (f s) \<Longrightarrow> R s s1"
    and refl: "\<And>s. R s s"
    and trans: "\<And>a b c. R a b \<Longrightarrow> R b c \<Longrightarrow> R a c"
  shows "s' \<in> set (iter f lo k st) \<Longrightarrow> R st s'"
proof (induction k arbitrary: lo st)
  case 0
  then show ?case using refl by (auto split: if_splits)
next
  case (Suc k)
  then show ?case using refl step trans by (auto split: if_splits) blast
qed

lemma set_progressing: "s1 \<in> set (progressing f s) \<Longrightarrow> s1 \<in> set (f s)"
  by (simp add: progressing_def)

lemma search_from_Some:
  "search_from ic r l s = Some m \<Longrightarrow>
     \<exists>p q ms. s = p @ q \<and> rmatch ic r 1 \<lparr>left = rev p @ l, rest = q, caps = []\<rparr> = m # ms"
proof (induction s arbitrary: l)
  case Nil
  then show ?case by (auto split: list.splits)
next
  case (Cons c cs)
  show ?case
  proof (cases "rmatch ic r 1 \<lparr>left = l, rest = c # cs, caps = []\<rparr>")
    case Nil
    with Cons.prems have "search_from ic r (c # l) cs = Some m" by simp
    from Cons.IH [OF this] obtain p q ms where
      "cs = p @ q" "rmatch ic r 1 \<lparr>left = rev p @ c # l, rest = q, caps = []\<rparr> = m # ms" by blast
    then show ?thesis
      by (intro exI [of _ "c # p"] exI [of _ q] exI [of _ ms]) simp
  next
    case (Cons m' ms)
    with Cons.prems have "m' = m" by simp
    with Cons show ?thesis
      by (intro exI [of _ "[]"] exI [of _ "c # cs"] exI [of _ ms]) simp
  qed
qed

lemma set_rmatch_Many_Cls:
  "s' \<in> set (rmatch ic (Rep lo None (Cls items)) n st) \<longleftrightarrow>
     (\<exists>w t. rest st = w @ t \<and> lo \<le> length w
        \<and> (\<forall>c \<in> set w. in_class ic items c) \<and> s' = st\<lparr>left := rev w @ left st, rest := t\<rparr>)"
proof -
  have "rmatch ic (Cls items) n = step_char (in_class ic items)" by (rule ext) simp
  then show ?thesis
    by (simp add: progressing_step_char set_iter_step_char) (metis length_append trans_le_add2 le_add1 add.commute)
qed

lemma rmatch_span:
  "s' \<in> set (rmatch ic r n st) \<Longrightarrow> \<exists>w. rest st = w @ rest s' \<and> left s' = rev w @ left st"
proof (induction r arbitrary: n st s')
  case (Seq a b)
  then obtain s1 where 1: "s1 \<in> set (rmatch ic a n st)"
    and 2: "s' \<in> set (rmatch ic b (n + ngroups a) s1)" by auto
  from Seq.IH(1) [OF 1] obtain u where u: "rest st = u @ rest s1" "left s1 = rev u @ left st" by blast
  from Seq.IH(2) [OF 2] obtain v where v: "rest s1 = v @ rest s'" "left s' = rev v @ left s1" by blast
  show ?case by (rule exI [of _ "u @ v"]) (simp add: u v)
next
  case (Rep lo hi r)
  let ?R = "\<lambda>s s1. \<exists>w. rest s = w @ rest s1 \<and> left s1 = rev w @ left s"
  have step: "\<And>s s1. s1 \<in> set (rmatch ic r n s) \<Longrightarrow> ?R s s1" using Rep.IH by blast
  have refl: "\<And>s. ?R s s" by simp
  have trans: "\<And>a b c. ?R a b \<Longrightarrow> ?R b c \<Longrightarrow> ?R a c"
  proof -
    fix a b c assume "?R a b" "?R b c"
    then obtain u v where "rest a = u @ rest b" "left b = rev u @ left a"
      "rest b = v @ rest c" "left c = rev v @ left b" by blast
    then show "?R a c" by (intro exI [of _ "u @ v"]) simp
  qed
  show ?case
  proof (cases hi)
    case None
    with Rep.prems have "s' \<in> set (iter (progressing (rmatch ic r n)) lo (lo + length (rest st)) st)"
      by simp
    then show ?thesis
      by (rule iter_invariant [where R = ?R, rotated 3]) (use step refl trans set_progressing in blast)+
  next
    case (Some h)
    with Rep.prems have "s' \<in> set (iter (rmatch ic r n) lo h st)" by simp
    then show ?thesis
      by (rule iter_invariant [where R = ?R, rotated 3]) (use step refl trans in blast)+
  qed
qed (auto simp: set_step_char split: if_splits)



lemma search_from_None:
  "search_from ic r l s = None \<longleftrightarrow>
     (\<forall>p q. s = p @ q \<longrightarrow> rmatch ic r 1 \<lparr>left = rev p @ l, rest = q, caps = []\<rparr> = [])"
proof (induction s arbitrary: l)
  case Nil
  show ?case by (auto split: list.splits)
next
  case (Cons c cs)
  show ?case
  proof (cases "rmatch ic r 1 \<lparr>left = l, rest = c # cs, caps = []\<rparr>")
    case Nil
    have "(\<forall>p q. c # cs = p @ q \<longrightarrow> rmatch ic r 1 \<lparr>left = rev p @ l, rest = q, caps = []\<rparr> = [])
      \<longleftrightarrow> (\<forall>p q. cs = p @ q \<longrightarrow> rmatch ic r 1 \<lparr>left = rev p @ c # l, rest = q, caps = []\<rparr> = [])"
      (is "?A \<longleftrightarrow> ?B")
    proof
      assume a: ?A
      show ?B
      proof (intro allI impI)
        fix p q assume "cs = p @ q"
        then have "c # cs = (c # p) @ q" by simp
        from a [rule_format, OF this] show "rmatch ic r 1 \<lparr>left = rev p @ c # l, rest = q, caps = []\<rparr> = []"
          by simp
      qed
    next
      assume b: ?B
      show ?A
      proof (intro allI impI)
        fix p q assume pq: "c # cs = p @ q"
        show "rmatch ic r 1 \<lparr>left = rev p @ l, rest = q, caps = []\<rparr> = []"
        proof (cases p)
          case Nil
          with pq \<open>rmatch ic r 1 \<lparr>left = l, rest = c # cs, caps = []\<rparr> = []\<close> show ?thesis by simp
        next
          case (Cons d p')
          with pq have "cs = p' @ q" "d = c" by simp_all
          with b Cons show ?thesis by simp
        qed
      qed
    qed
    with Nil Cons.IH [of "c # l"] show ?thesis by simp
  next
    case (Cons m ms)
    have "c # cs = [] @ (c # cs)" by simp
    moreover have "rmatch ic r 1 \<lparr>left = rev [] @ l, rest = c # cs, caps = []\<rparr> \<noteq> []"
      using Cons by simp
    ultimately have "\<not> (\<forall>p q. c # cs = p @ q
        \<longrightarrow> rmatch ic r 1 \<lparr>left = rev p @ l, rest = q, caps = []\<rparr> = [])"
      by blast
    moreover have "search_from ic r l (c # cs) \<noteq> None" using Cons by simp
    ultimately show ?thesis by blast
  qed
qed

section \<open>The assembly of the records\<close>

lemma process_skipped: "skipped_line raw \<Longrightarrow> process_line st raw = Inr st"
  by (auto simp: skipped_line_def process_line_def Let_def)

lemma process_name:
  "name_line raw \<Longrightarrow>
     process_line st raw = Inr (st\<lparr>current_medicine_name := Some (clean_name (strip raw))\<rparr>)"
  by (auto simp: name_line_def skipped_line_def process_line_def Let_def)

lemma process_detail:
  "detail_line raw \<Longrightarrow>
     process_line st raw =
       (case extract_dosage (lower (strip raw)) (current_medicine_name st) of
          Inl e \<Rightarrow> Inl e
        | Inr dos \<Rightarrow>
           (case extract_frequency (lower (strip raw)) of
              Inl e \<Rightarrow> Inl e
            | Inr freq \<Rightarrow> emit st dos freq))"
  by (auto simp: detail_line_def skipped_line_def process_line_def Let_def)

lemma line_kinds: "skipped_line raw \<or> name_line raw \<or> detail_line raw"
  by (auto simp: name_line_def detail_line_def)

lemma run_skipped: "\<forall>l \<in> set gap. skipped_line l \<Longrightarrow> run_lines st gap = Inr st"
  by (induction gap) (simp_all add: process_skipped)

lemma run_lines_append:
  "run_lines st (xs @ ys) =
     (case run_lines st xs of Inl e \<Rightarrow> Inl e | Inr st' \<Rightarrow> run_lines st' ys)"
  by (induction xs arbitrary: st) (auto split: sum.splits)

lemma emit_cases:
  assumes "emit st dos freq = Inr st'"
  shows "st' = st \<or>
     (\<exists>nm d. current_medicine_name st = Some nm \<and> nm \<noteq> [] \<and> dos = Some d
        \<and> st' = \<lparr>medicines = medicines st
                   @ [\<lparr>name = strip nm, dosage = strip d, frequency = strip freq\<rparr>],
                 current_medicine_name = None\<rparr>)"
  using assms
  by (auto simp: emit_def py_strip_def split: option.splits if_splits)

text \<open>
  Claim C7. A record is emitted only by a detail line that meets a pending name: the record
  carries that name and the pending name is cleared. A name line emits no record and sets the
  pending name, whatever was pending before; so a name line followed only by skipped lines
  up to the end of the input, or up to the next name line, leaves the records as they were,
  and the second name line replaces the name of the first.
\<close>

theorem record_pairs_name_with_detail:
  "(process_line st raw = Inr st' \<longrightarrow>
      medicines st' = medicines st
      \<or> (\<exists>nm d f. detail_line raw \<and> current_medicine_name st = Some nm \<and> nm \<noteq> []
            \<and> medicines st' = medicines st @ [\<lparr>name = strip nm, dosage = d, frequency = f\<rparr>]
            \<and> current_medicine_name st' = None))
   \<and> (name_line l1 \<and> (\<forall>l \<in> set gap. skipped_line l) \<longrightarrow>
        run_lines st1 (l1 # gap)
          = Inr \<lparr>medicines = medicines st1,
                 current_medicine_name = Some (clean_name (strip l1))\<rparr>)
   \<and> (name_line l1 \<and> (\<forall>l \<in> set gap. skipped_line l) \<and> name_line l2 \<longrightarrow>
        run_lines st1 (l1 # gap @ [l2])
          = Inr \<lparr>medicines = medicines st1,
                 current_medicine_name = Some (clean_name (strip l2))\<rparr>)"
proof (intro conjI impI)
  assume p: "process_line st raw = Inr st'"
  consider "skipped_line raw" | "name_line raw" | "detail_line raw"
    using line_kinds by blast
  then show "medicines st' = medicines st
      \<or> (\<exists>nm d f. detail_line raw \<and> current_medicine_name st = Some nm \<and> nm \<noteq> []
            \<and> medicines st' = medicines st @ [\<lparr>name = strip nm, dosage = d, frequency = f\<rparr>]
            \<and> current_medicine_name st' = None)"
  proof cases
    case 1
    with p show ?thesis by (simp add: process_skipped)
  next
    case 2
    with p show ?thesis by (auto simp: process_name)
  next
    case 3
    with p obtain dos freq where "emit st dos freq = Inr st'"
      by (auto simp: process_detail split: sum.splits)
    from emit_cases [OF this] 3 show ?thesis by auto
  qed
next
  assume a: "name_line l1 \<and> (\<forall>l \<in> set gap. skipped_line l)"
  then show "run_lines st1 (l1 # gap)
      = Inr \<lparr>medicines = medicines st1, current_medicine_name = Some (clean_name (strip l1))\<rparr>"
    by (simp add: process_name run_skipped)
next
  assume a: "name_line l1 \<and> (\<forall>l \<in> set gap. skipped_line l) \<and> name_line l2"
  then show "run_lines st1 (l1 # gap @ [l2])
      = Inr \<lparr>medicines = medicines st1, current_medicine_name = Some (clean_name (strip l2))\<rparr>"
    by (simp add: process_name run_skipped run_lines_append)
qed

theorem record_pairs_name_with_detail_witness:
  "process_line \<lparr>medicines = [], current_medicine_name = Some ''Aspirin''\<rparr> ''1-0-1''
     = Inr \<lparr>medicines = [\<lparr>name = ''Aspirin'', dosage = ''1'',
                            frequency = ''Morning: 1, Afternoon: 0, Night: 1''\<rparr>],
            current_medicine_name = None\<rparr>
   \<and> detail_line ''1-0-1''
   \<and> name_line ''Aspirin'' \<and> list_all skipped_line ['''', ''+1-800-555-1234'']
   \<and> name_line ''Ibuprofen''
   \<and> run_lines \<lparr>medicines = [], current_medicine_name = None\<rparr>
        [''Aspirin'', '''', ''+1-800-555-1234'']
       = Inr \<lparr>medicines = [], current_medicine_name = Some ''Aspirin''\<rparr>
   \<and> run_lines \<lparr>medicines = [], current_medicine_name = None\<rparr>
        [''Aspirin'', '''', ''+1-800-555-1234'', ''Ibuprofen'']
       = Inr \<lparr>medicines = [], current_medicine_name = Some ''Ibuprofen''\<rparr>"
proof -
  let ?st = "\<lparr>medicines = [], current_medicine_name = Some ''Aspirin''\<rparr>"
  let ?st' = "\<lparr>medicines = [\<lparr>name = ''Aspirin'', dosage = ''1'',
                            frequency = ''Morning: 1, Afternoon: 0, Night: 1''\<rparr>],
            current_medicine_name = None\<rparr>"
  let ?init = "\<lparr>medicines = [], current_medicine_name = None\<rparr>"
  have h1: "process_line ?st ''1-0-1'' = Inr ?st'" by code_simp
  have h2: "name_line ''Aspirin''" by code_simp
  have h3: "\<forall>l \<in> set ['''', ''+1-800-555-1234'']. skipped_line l" by code_simp
  have h4: "name_line ''Ibuprofen''" by code_simp
  have c1: "clean_name (strip ''Aspirin'') = ''Aspirin''" by code_simp
  have c2: "clean_name (strip ''Ibuprofen'') = ''Ibuprofen''" by code_simp
  note t = record_pairs_name_with_detail
    [of ?st "''1-0-1''" ?st' "''Aspirin''" "['''', ''+1-800-555-1234'']" ?init "''Ibuprofen''"]
  from t h1 have "detail_line ''1-0-1''" by auto
  moreover from t h2 h3 c1 have "run_lines ?init [''Aspirin'', '''', ''+1-800-555-1234'']
       = Inr \<lparr>medicines = [], current_medicine_name = Some ''Aspirin''\<rparr>" by simp
  moreover from t h2 h3 h4 c2 have "run_lines ?init
       [''Aspirin'', '''', ''+1-800-555-1234'', ''Ibuprofen'']
       = Inr \<lparr>medicines = [], current_medicine_name = Some ''Ibuprofen''\<rparr>" by simp
  ultimately show ?thesis using h1 h2 h3 h4 by (simp add: list_all_iff)
qed

section \<open>The names of the records\<close>

lemma upper_facts:
  assumes "is_upper c"
  shows "\<not> is_space c" "\<not> is_digit c" "\<not> is_space (lower_char c)" "\<not> is_digit (lower_char c)"
    "upper_char c = c" "c \<notin> set ''!@#$%^&*()''"
  using assms
  by (auto simp: is_upper_def is_space_def is_digit_def is_lower_def lower_char_def upper_char_def
      is_latin_upper_def is_latin_lower_def)

lemma upper_not_in_class:
  assumes "is_upper c"
  shows "\<not> in_class True [Space] c" "\<not> in_class True [Digit] c"
    "\<not> in_class False (map One ''!@#$%^&*()'') c"
  using upper_facts [OF assms] by (auto simp: in_class_def)

lemma set_rmatch_Bol:
  "s' \<in> set (rmatch ic Bol n st) \<longleftrightarrow> left st = [] \<and> s' = st"
  by auto

lemma name_line_starts_upper:
  assumes "is_name_line line"
  shows "\<exists>c t. line = c # t \<and> is_upper c"
proof -
  from assms obtain m ms where
    "rmatch False name_pattern 1 \<lparr>left = [], rest = line, caps = []\<rparr> = m # ms"
    by (auto simp: is_name_line_def re_match_def split: list.splits)
  then have "m \<in> set (rmatch False name_pattern 1 \<lparr>left = [], rest = line, caps = []\<rparr>)"
    by simp
  then obtain d ds where "line = d # ds" "in_class False [Range (CHR ''A'') (CHR ''Z'')] d"
    unfolding name_pattern_def seqs_def
    by (auto simp: set_rmatch_Seq set_rmatch_Bol set_rmatch_Cls simp del: rmatch.simps)
  then show ?thesis by (auto simp: in_class_def is_upper_def)
qed

lemma noise_keeps_upper:
  assumes "is_upper c"
  shows "\<exists>t'. re_sub False noise_pattern [] (c # t) = c # t'"
  using upper_not_in_class(3) [OF assms]
  by (simp add: re_sub_def noise_pattern_def step_char_def)

lemma set_rmatch_Star_space:
  "s' \<in> set (rmatch ic (Star space) n st) \<longleftrightarrow>
     (\<exists>w t. rest st = w @ t \<and> (\<forall>c \<in> set w. in_class ic [Space] c)
        \<and> s' = st\<lparr>left := rev w @ left st, rest := t\<rparr>)"
  by (simp add: Star_def space_def set_rmatch_Many_Cls del: rmatch.simps)

lemma set_rmatch_Plus_digit:
  "s' \<in> set (rmatch ic (Plus digit) n st) \<longleftrightarrow>
     (\<exists>w t. rest st = w @ t \<and> w \<noteq> [] \<and> (\<forall>c \<in> set w. in_class ic [Digit] c)
        \<and> s' = st\<lparr>left := rev w @ left st, rest := t\<rparr>)"
  by (simp add: Plus_def digit_def set_rmatch_Many_Cls Suc_le_eq del: rmatch.simps)

lemma unit_fragment_not_at_upper:
  assumes "is_upper c"
  shows "rmatch True (unit_fragment unit) n \<lparr>left = l, rest = c # t, caps = []\<rparr> = []"
proof -
  have "s' \<notin> set (rmatch True (unit_fragment unit) n \<lparr>left = l, rest = c # t, caps = []\<rparr>)" for s'
  proof
    assume "s' \<in> set (rmatch True (unit_fragment unit) n \<lparr>left = l, rest = c # t, caps = []\<rparr>)"
    then obtain s1 s2 n1 n2 where
      1: "s1 \<in> set (rmatch True (Star space) n1 \<lparr>left = l, rest = c # t, caps = []\<rparr>)"
      and 2: "s2 \<in> set (rmatch True (Plus digit) n2 s1)"
      unfolding unit_fragment_def seqs_def foldr.simps o_apply set_rmatch_Seq
      by blast
    from 1 obtain w t1 where w: "c # t = w @ t1" "\<forall>x \<in> set w. in_class True [Space] x" "rest s1 = t1"
      by (auto simp: set_rmatch_Star_space simp del: rmatch.simps)
    from 2 obtain v t2 where v: "rest s1 = v @ t2" "v \<noteq> []" "\<forall>x \<in> set v. in_class True [Digit] x"
      by (auto simp: set_rmatch_Plus_digit simp del: rmatch.simps)
    show False
    proof (cases w)
      case Nil
      with w v have "hd v = c" by (cases v) auto
      with v upper_not_in_class(2) [OF assms] show False by (cases v) auto
    next
      case (Cons x xs)
      with w have "x = c" by simp
      with Cons w upper_not_in_class(1) [OF assms] show False by auto
    qed
  qed
  then show ?thesis by (cases "rmatch True (unit_fragment unit) n \<lparr>left = l, rest = c # t, caps = []\<rparr>") auto
qed

lemma unit_sub_keeps_upper:
  assumes "is_upper c"
  shows "\<exists>t'. re_sub True (unit_fragment unit) [] (c # t) = c # t'"
  by (simp add: re_sub_def unit_fragment_not_at_upper [OF assms])

lemma strip_unit_keeps_upper:
  assumes "is_upper c"
  shows "\<exists>t'. strip_unit units (c # t) = c # t'"
proof (induction units)
  case Nil
  show ?case by simp
next
  case (Cons u us)
  from unit_sub_keeps_upper [OF assms] obtain t1 where
    "re_sub True (unit_fragment u) [] (c # t) = c # t1" by blast
  moreover from strip_Cons_keep [of c t1] upper_facts(1) [OF assms] obtain t2 where
    "strip (c # t1) = c # t2" by blast
  ultimately show ?case using Cons by auto
qed

lemma clean_name_starts_upper:
  assumes "is_name_line line"
  shows "\<exists>c t. clean_name line = c # t \<and> is_upper c"
proof -
  from name_line_starts_upper [OF assms] obtain c t where c: "line = c # t" "is_upper c" by blast
  from noise_keeps_upper [OF c(2)] obtain t1 where
    1: "re_sub False noise_pattern [] (c # t) = c # t1" by blast
  from strip_Cons_keep [of c t1] upper_facts(1) [OF c(2)] obtain t2 where
    2: "strip (c # t1) = c # t2" by blast
  from strip_unit_keeps_upper [OF c(2)] obtain t3 where
    3: "strip_unit dosage_keywords (c # t2) = c # t3" by blast
  show ?thesis using c 1 2 3 by (simp add: clean_name_def)
qed

lemma strip_nonempty_iff: "strip s \<noteq> [] \<longleftrightarrow> (\<exists>c \<in> set s. \<not> is_space c)"
proof -
  have "(\<forall>x \<in> set (dropWhile is_space s). is_space x) \<longleftrightarrow> dropWhile is_space s = []"
    by (metis hd_dropWhile hd_in_set list.set(1) empty_iff all_not_in_conv)
  then show ?thesis by (auto simp: strip_def dropWhile_eq_Nil_conv)
qed

lemma contains_subset: "contains p s \<Longrightarrow> set p \<subseteq> set s"
proof (induction s)
  case Nil
  then show ?case by simp
next
  case (Cons x xs)
  then show ?case using set_mono_prefix [of p "x # xs"] by auto
qed

lemma keywords_not_blank: "\<forall>kw \<in> set frequency_keywords. strip kw \<noteq> []"
  by (simp add: frequency_keywords_def strip_nonempty_iff is_space_def)

lemma keyword_scan_not_blank:
  "keyword_scan ll kws f = Inr f' \<Longrightarrow> strip f \<noteq> [] \<Longrightarrow> \<forall>kw \<in> set kws. strip kw \<noteq> [] \<Longrightarrow>
     strip f' \<noteq> []"
proof (induction kws arbitrary: f)
  case Nil
  then show ?case by simp
next
  case (Cons kw kws)
  have kw: "strip kw \<noteq> []" and kws: "\<forall>k \<in> set kws. strip k \<noteq> []" using Cons.prems(3) by simp_all
  show ?case
  proof (cases "re_search True (freq_num_pattern kw) ll")
    case None
    with Cons.prems(1) have "f' = kw \<or> keyword_scan ll kws f = Inr f'"
      by (auto split: if_splits)
    then show ?thesis using kw Cons.IH [OF _ Cons.prems(2) kws] by blast
  next
    case (Some m)
    show ?thesis
    proof (cases "group m 2")
      case None
      with Some Cons.prems(1) show ?thesis by simp
    next
      case g: (Some g)
      show ?thesis
      proof (cases "contains ''times'' g")
        case True
        then have "CHR ''t'' \<in> set g" using contains_subset by fastforce
        then have "strip (fmt (group m 1) @ '' '' @ g) \<noteq> []"
          unfolding strip_nonempty_iff by (auto simp: is_space_def intro!: bexI [of _ "CHR ''t''"])
        moreover from True Some g Cons.prems(1)
        have "keyword_scan ll kws (fmt (group m 1) @ '' '' @ g) = Inr f'" by simp
        ultimately show ?thesis using Cons.IH [OF _ _ kws] by blast
      next
        case False
        with Some g Cons.prems(1) have "f' = kw \<or> keyword_scan ll kws f = Inr f'"
          by (auto split: if_splits)
        then show ?thesis using kw Cons.IH [OF _ Cons.prems(2) kws] by blast
      qed
    qed
  qed
qed

lemma frequency_not_blank:
  assumes "extract_frequency ll = Inr f"
  shows "strip f \<noteq> []"
proof (cases "re_search False xyz_pattern ll")
  case None
  with assms have "keyword_scan ll frequency_keywords ''Not specified'' = Inr f"
    by (simp add: extract_frequency_def)
  moreover have "strip ''Not specified'' \<noteq> []"
    by (simp add: strip_nonempty_iff is_space_def)
  ultimately show ?thesis using keyword_scan_not_blank keywords_not_blank by blast
next
  case (Some m)
  with assms obtain t where "f = CHR ''M'' # t" by (auto simp: extract_frequency_def)
  then show ?thesis
    unfolding strip_nonempty_iff by (auto simp: is_space_def)
qed

lemma process_line_keeps_names:
  assumes "process_line st raw = Inr st'"
    and "\<forall>r \<in> set (medicines st). name r \<noteq> [] \<and> frequency r \<noteq> []"
    and "\<forall>nm. current_medicine_name st = Some nm \<longrightarrow> strip nm \<noteq> []"
  shows "(\<forall>r \<in> set (medicines st'). name r \<noteq> [] \<and> frequency r \<noteq> [])
     \<and> (\<forall>nm. current_medicine_name st' = Some nm \<longrightarrow> strip nm \<noteq> [])"
proof -
  consider "skipped_line raw" | "name_line raw" | "detail_line raw"
    using line_kinds by blast
  then show ?thesis
  proof cases
    case 1
    with assms show ?thesis by (simp add: process_skipped)
  next
    case 2
    then have "is_name_line (strip raw)" by (simp add: name_line_def)
    from clean_name_starts_upper [OF this] obtain c t where
      c: "clean_name (strip raw) = c # t" "is_upper c" by blast
    then have "strip (clean_name (strip raw)) \<noteq> []"
      unfolding strip_nonempty_iff using upper_facts(1) by auto
    with 2 assms show ?thesis by (auto simp: process_name)
  next
    case 3
    with assms(1) obtain dos freq where f: "extract_frequency (lower (strip raw)) = Inr freq"
      and e: "emit st dos freq = Inr st'"
      by (auto simp: process_detail split: sum.splits)
    from emit_cases [OF e] show ?thesis
    proof
      assume "st' = st"
      with assms show ?thesis by simp
    next
      assume "\<exists>nm d. current_medicine_name st = Some nm \<and> nm \<noteq> [] \<and> dos = Some d
        \<and> st' = \<lparr>medicines = medicines st
                   @ [\<lparr>name = strip nm, dosage = strip d, frequency = strip freq\<rparr>],
                 current_medicine_name = None\<rparr>"
      then obtain nm d where nm: "current_medicine_name st = Some nm"
        and st': "st' = \<lparr>medicines = medicines st
                   @ [\<lparr>name = strip nm, dosage = strip d, frequency = strip freq\<rparr>],
                 current_medicine_name = None\<rparr>" by blast
      have "strip nm \<noteq> []" using assms(3) nm by blast
      moreover have "strip freq \<noteq> []" using frequency_not_blank [OF f] .
      ultimately show ?thesis using st' assms(2) by auto
    qed
  qed
qed

lemma run_lines_keeps_names:
  "run_lines st ls = Inr st' \<Longrightarrow>
   \<forall>r \<in> set (medicines st). name r \<noteq> [] \<and> frequency r \<noteq> [] \<Longrightarrow>
   \<forall>nm. current_medicine_name st = Some nm \<longrightarrow> strip nm \<noteq> [] \<Longrightarrow>
   \<forall>r \<in> set (medicines st'). name r \<noteq> [] \<and> frequency r \<noteq> []"
proof (induction ls arbitrary: st)
  case Nil
  then show ?case by simp
next
  case (Cons l ls)
  from Cons.prems(1) obtain s1 where 1: "process_line st l = Inr s1" and 2: "run_lines s1 ls = Inr st'"
    by (auto split: sum.splits)
  from process_line_keeps_names [OF 1 Cons.prems(2,3)] Cons.IH [OF 2] show ?case by blast
qed

text \<open>
  Claim C8. Every record the parser returns has a non-empty name. The sentinel record is
  returned only as the sole element, and only when the text is non-empty and the loop over
  the lines has produced no record; otherwise the parser returns the records of the loop, and
  none of them is the sentinel record.
\<close>

theorem records_have_names:
  assumes "parse_medicine_details text = Inr recs"
  shows "(\<forall>r \<in> set recs. name r \<noteq> [])
    \<and> ((recs = [sentinel] \<and> text \<noteq> []
          \<and> (\<exists>st. run_lines \<lparr>medicines = [], current_medicine_name = None\<rparr> (split_on nl text)
                     = Inr st \<and> medicines st = []))
       \<or> (sentinel \<notin> set recs
          \<and> (\<exists>st. run_lines \<lparr>medicines = [], current_medicine_name = None\<rparr> (split_on nl text)
                     = Inr st \<and> medicines st = recs)))"
proof -
  from assms obtain st where
    run: "run_lines \<lparr>medicines = [], current_medicine_name = None\<rparr> (split_on nl text) = Inr st"
    by (auto simp: parse_medicine_details_def split: sum.splits)
  have good: "\<forall>r \<in> set (medicines st). name r \<noteq> [] \<and> frequency r \<noteq> []"
    by (rule run_lines_keeps_names [OF run]) simp_all
  show ?thesis
  proof (cases "medicines st = [] \<and> strip text \<noteq> []")
    case True
    with assms run have "recs = [sentinel]" by (simp add: parse_medicine_details_def)
    moreover have "text \<noteq> []" using True by (auto simp: strip_def)
    moreover have "name sentinel \<noteq> []" by (simp add: sentinel_def)
    ultimately show ?thesis using run True by auto
  next
    case False
    with assms run have r: "recs = medicines st" by (auto simp: parse_medicine_details_def)
    have "frequency sentinel = []" by (simp add: sentinel_def)
    with good r have "sentinel \<notin> set recs" by auto
    with good r run show ?thesis by auto
  qed
qed

theorem records_have_names_witness:
  "parse_medicine_details (''Amoxicillin'' @ [nl] @ ''2 tablets twice a day'')
     = Inr [\<lparr>name = ''Amoxicillin'', dosage = ''2 tablet(s)'', frequency = ''twice a day''\<rparr>]
   \<and> list_all (\<lambda>r. name r \<noteq> [])
        [\<lparr>name = ''Amoxicillin'', dosage = ''2 tablet(s)'', frequency = ''twice a day''\<rparr>]
   \<and> sentinel
        \<notin> set [\<lparr>name = ''Amoxicillin'', dosage = ''2 tablet(s)'', frequency = ''twice a day''\<rparr>]"
proof -
  have h: "parse_medicine_details (''Amoxicillin'' @ [nl] @ ''2 tablets twice a day'')
     = Inr [\<lparr>name = ''Amoxicillin'', dosage = ''2 tablet(s)'', frequency = ''twice a day''\<rparr>]"
    by code_simp
  from records_have_names [OF h] h show ?thesis
    by (auto simp: sentinel_def)
qed

section \<open>The triplet of the frequency\<close>



lemma digit_is_word: "is_digit c \<Longrightarrow> is_word c"
  by (simp add: is_word_def)

lemma in_class_digit: "in_class False [Digit] c = is_digit c"
  by (simp add: in_class_def)


text \<open>The steps of a sequence, on a position given by its three parts.\<close>

lemma seqs_Nil_step: "s' \<in> set (rmatch ic (seqs []) n st) \<longleftrightarrow> s' = st"
  by (simp add: seqs_def)

lemma seqs_Cons_step:
  "s' \<in> set (rmatch ic (seqs (r # rs)) n st) \<longleftrightarrow>
     (\<exists>s1. s1 \<in> set (rmatch ic r n st) \<and> s' \<in> set (rmatch ic (seqs rs) (n + ngroups r) s1))"
  by (auto simp: seqs_def)

lemma bnd_step:
  "s' \<in> set (rmatch ic Bnd k \<lparr>left = l, rest = r, caps = cs\<rparr>) \<longleftrightarrow>
     at_boundary l r \<and> s' = \<lparr>left = l, rest = r, caps = cs\<rparr>"
  by auto

lemma lit_step:
  "s' \<in> set (rmatch False (Lit c) k \<lparr>left = l, rest = r, caps = cs\<rparr>) \<longleftrightarrow>
     (\<exists>t. r = c # t \<and> s' = \<lparr>left = c # l, rest = t, caps = cs\<rparr>)"
  by (auto simp: set_step_char eq_char_def)





lemma seqs_ConsI:
  "s1 \<in> set (rmatch ic r n st) \<Longrightarrow> s' \<in> set (rmatch ic (seqs rs) (n + ngroups r) s1) \<Longrightarrow>
     s' \<in> set (rmatch ic (seqs (r # rs)) n st)"
  unfolding seqs_Cons_step by blast

lemma bnd_stepI:
  "at_boundary l r \<Longrightarrow>
     \<lparr>left = l, rest = r, caps = cs\<rparr> \<in> set (rmatch ic Bnd k \<lparr>left = l, rest = r, caps = cs\<rparr>)"
  by simp







lemma re_search_Some:
  "re_search ic r s = Some m \<Longrightarrow>
     \<exists>p q. s = p @ q \<and> m \<in> set (rmatch ic r 1 \<lparr>left = rev p, rest = q, caps = []\<rparr>)"
proof -
  assume "re_search ic r s = Some m"
  then obtain p q ms where "s = p @ q"
    "rmatch ic r 1 \<lparr>left = rev p @ [], rest = q, caps = []\<rparr> = m # ms"
    unfolding re_search_def using search_from_Some by blast
  then show ?thesis by (intro exI [of _ p] exI [of _ q]) simp
qed

lemma re_search_found:
  assumes "m \<in> set (rmatch ic r 1 \<lparr>left = rev p, rest = q, caps = []\<rparr>)"
  shows "\<exists>m'. re_search ic r (p @ q) = Some m'"
proof (cases "re_search ic r (p @ q)")
  case None
  then have "rmatch ic r 1 \<lparr>left = rev p @ [], rest = q, caps = []\<rparr> = []"
    unfolding re_search_def search_from_None by blast
  with assms show ?thesis by simp
next
  case (Some a)
  then show ?thesis by simp
qed











section \<open>The phone-number filter\<close>

text \<open>The steps of the phone-number pattern, on a position given by its three parts.\<close>

lemma in_class_sep:
  "in_class False [One (CHR ''-''), One (CHR ''.''), Space] c
     \<longleftrightarrow> c = CHR ''-'' \<or> c = CHR ''.'' \<or> is_space c"
  by (auto simp: in_class_def)

lemma opt_lit_step:
  "s' \<in> set (rmatch False (Opt (Lit c)) k \<lparr>left = l, rest = r, caps = cs\<rparr>) \<longleftrightarrow>
     (\<exists>u t. r = u @ t \<and> (u = [] \<or> u = [c]) \<and> s' = \<lparr>left = rev u @ l, rest = t, caps = cs\<rparr>)"
  unfolding set_rmatch_Opt lit_step by auto

lemma opt_sep_step:
  "s' \<in> set (rmatch False (Opt sep) k \<lparr>left = l, rest = r, caps = cs\<rparr>) \<longleftrightarrow>
     (\<exists>u t. r = u @ t \<and> opt_sep u \<and> s' = \<lparr>left = rev u @ l, rest = t, caps = cs\<rparr>)"
  unfolding set_rmatch_Opt sep_def set_rmatch_Cls in_class_sep opt_sep_def by auto

lemma digits_between_step:
  "s' \<in> set (rmatch False (Rep lo (Some hi) digit) k \<lparr>left = l, rest = r, caps = cs\<rparr>) \<longleftrightarrow>
     (\<exists>u t. r = u @ t \<and> lo \<le> length u \<and> length u \<le> hi \<and> list_all is_digit u
        \<and> s' = \<lparr>left = rev u @ l, rest = t, caps = cs\<rparr>)"
  unfolding digit_def set_rmatch_Rep_Cls in_class_digit by (auto simp: list_all_iff)

lemma times_digit_step:
  "s' \<in> set (rmatch False (Times j digit) k \<lparr>left = l, rest = r, caps = cs\<rparr>) \<longleftrightarrow>
     (\<exists>u t. r = u @ t \<and> digit_group j u \<and> s' = \<lparr>left = rev u @ l, rest = t, caps = cs\<rparr>)"
  unfolding Times_def digits_between_step digit_group_def by auto

lemma country_code_parts:
  assumes "s1 \<in> set (rmatch False (seqs [Opt (Lit (CHR ''+'')), Rep 1 (Some 3) digit, Opt sep]) k
             \<lparr>left = l, rest = r, caps = cs\<rparr>)"
  shows "\<exists>p d x t. r = p @ d @ x @ t \<and> (p = [] \<or> p = ''+'') \<and> 1 \<le> length d \<and> length d \<le> 3
      \<and> list_all is_digit d \<and> opt_sep x
      \<and> s1 = \<lparr>left = rev (p @ d @ x) @ l, rest = t, caps = cs\<rparr>"
  using assms
  unfolding seqs_Cons_step seqs_Nil_step
  apply (elim exE conjE)
  apply (simp only: opt_lit_step)
  apply (elim exE conjE)
  apply (simp only: digits_between_step)
  apply (elim exE conjE)
  apply (simp only: opt_sep_step)
  apply (elim exE conjE)
  apply (simp del: rmatch.simps)
  apply blast
  done

lemma country_code_forward:
  assumes "s1 \<in> set (rmatch False (seqs [Opt (Lit (CHR ''+'')), Rep 1 (Some 3) digit, Opt sep]) k
             \<lparr>left = l, rest = r, caps = cs\<rparr>)"
  shows "\<exists>u t. r = u @ t \<and> country_code u \<and> s1 = \<lparr>left = rev u @ l, rest = t, caps = cs\<rparr>"
proof -
  from country_code_parts [OF assms] obtain p d x t where
    h: "r = p @ d @ x @ t" "p = [] \<or> p = ''+''" "1 \<le> length d" "length d \<le> 3"
      "list_all is_digit d" "opt_sep x"
      "s1 = \<lparr>left = rev (p @ d @ x) @ l, rest = t, caps = cs\<rparr>" by blast
  have "country_code (p @ d @ x)" unfolding country_code_def using h by blast
  moreover have "r = (p @ d @ x) @ t" using h(1) by simp
  ultimately show ?thesis using h(7) by blast
qed

lemma phone_tail_forward:
  assumes "m \<in> set (rmatch False
       (seqs [Opt (Lit (CHR ''('')), Times 3 digit, Opt (Lit (CHR '')'')), Opt sep,
              Times 3 digit, Opt sep, Times 4 digit, Bnd]) k
       \<lparr>left = l, rest = r, caps = cs\<rparr>)"
  shows "\<exists>lp a rp s1 b s2 c t.
      r = lp @ a @ rp @ s1 @ b @ s2 @ c @ t
      \<and> (lp = [] \<or> lp = ''('') \<and> digit_group 3 a \<and> (rp = [] \<or> rp = '')'') \<and> opt_sep s1
      \<and> digit_group 3 b \<and> opt_sep s2 \<and> digit_group 4 c
      \<and> at_boundary (rev (lp @ a @ rp @ s1 @ b @ s2 @ c) @ l) t"
  using assms
  unfolding seqs_Cons_step seqs_Nil_step
  apply (elim exE conjE)
  apply (simp only: opt_lit_step)
  apply (elim exE conjE)
  apply (simp only: times_digit_step)
  apply (elim exE conjE)
  apply (simp only: opt_lit_step)
  apply (elim exE conjE)
  apply (simp only: opt_sep_step)
  apply (elim exE conjE)
  apply (simp only: times_digit_step)
  apply (elim exE conjE)
  apply (simp only: opt_sep_step)
  apply (elim exE conjE)
  apply (simp only: times_digit_step)
  apply (elim exE conjE)
  apply (simp only: bnd_step)
  apply (elim exE conjE)
  apply (simp del: rmatch.simps)
  apply blast
  done

lemma opt_lit_stepI:
  "u = [] \<or> u = [c] \<Longrightarrow>
     \<lparr>left = rev u @ l, rest = t, caps = cs\<rparr>
       \<in> set (rmatch False (Opt (Lit c)) k \<lparr>left = l, rest = u @ t, caps = cs\<rparr>)"
  unfolding opt_lit_step by blast

lemma opt_sep_stepI:
  "opt_sep u \<Longrightarrow>
     \<lparr>left = rev u @ l, rest = t, caps = cs\<rparr>
       \<in> set (rmatch False (Opt sep) k \<lparr>left = l, rest = u @ t, caps = cs\<rparr>)"
  unfolding opt_sep_step by blast

lemma times_digit_stepI:
  "digit_group j u \<Longrightarrow>
     \<lparr>left = rev u @ l, rest = t, caps = cs\<rparr>
       \<in> set (rmatch False (Times j digit) k \<lparr>left = l, rest = u @ t, caps = cs\<rparr>)"
  unfolding times_digit_step by blast

lemma digits_between_stepI:
  "lo \<le> length u \<Longrightarrow> length u \<le> hi \<Longrightarrow> list_all is_digit u \<Longrightarrow>
     \<lparr>left = rev u @ l, rest = t, caps = cs\<rparr>
       \<in> set (rmatch False (Rep lo (Some hi) digit) k \<lparr>left = l, rest = u @ t, caps = cs\<rparr>)"
  unfolding digits_between_step by blast

lemma country_code_backward:
  assumes "country_code u"
  shows "\<lparr>left = rev u @ l, rest = t, caps = cs\<rparr>
     \<in> set (rmatch False (seqs [Opt (Lit (CHR ''+'')), Rep 1 (Some 3) digit, Opt sep]) k
          \<lparr>left = l, rest = u @ t, caps = cs\<rparr>)"
proof -
  from assms obtain p d x where
    h: "u = p @ d @ x" "p = [] \<or> p = ''+''" "1 \<le> length d" "length d \<le> 3"
      "list_all is_digit d" "opt_sep x"
    unfolding country_code_def by blast
  have "\<lparr>left = rev (p @ d @ x) @ l, rest = t, caps = cs\<rparr>
     \<in> set (rmatch False (seqs [Opt (Lit (CHR ''+'')), Rep 1 (Some 3) digit, Opt sep]) k
          \<lparr>left = l, rest = p @ d @ x @ t, caps = cs\<rparr>)"
    apply (rule seqs_ConsI, rule opt_lit_stepI, rule h)
    apply (rule seqs_ConsI, rule digits_between_stepI, rule h, rule h, rule h)
    apply (rule seqs_ConsI, rule opt_sep_stepI, rule h)
    apply (simp add: seqs_Nil_step del: rmatch.simps)
    done
  then show ?thesis using h(1) by simp
qed

lemma phone_tail_backward:
  assumes "lp = [] \<or> lp = ''(''" "digit_group 3 a" "rp = [] \<or> rp = '')''" "opt_sep s1"
    "digit_group 3 b" "opt_sep s2" "digit_group 4 c"
    and "at_boundary (rev (lp @ a @ rp @ s1 @ b @ s2 @ c) @ l) t"
  shows "\<lparr>left = rev (lp @ a @ rp @ s1 @ b @ s2 @ c) @ l, rest = t, caps = cs\<rparr>
     \<in> set (rmatch False
          (seqs [Opt (Lit (CHR ''('')), Times 3 digit, Opt (Lit (CHR '')'')), Opt sep,
                 Times 3 digit, Opt sep, Times 4 digit, Bnd]) k
          \<lparr>left = l, rest = lp @ a @ rp @ s1 @ b @ s2 @ c @ t, caps = cs\<rparr>)"
  apply (rule seqs_ConsI, rule opt_lit_stepI, rule assms)
  apply (rule seqs_ConsI, rule times_digit_stepI, rule assms)
  apply (rule seqs_ConsI, rule opt_lit_stepI, rule assms)
  apply (rule seqs_ConsI, rule opt_sep_stepI, rule assms)
  apply (rule seqs_ConsI, rule times_digit_stepI, rule assms)
  apply (rule seqs_ConsI, rule opt_sep_stepI, rule assms)
  apply (rule seqs_ConsI, rule times_digit_stepI, rule assms)
  apply (rule seqs_ConsI, rule bnd_stepI)
  using assms(8) apply simp
  apply (simp add: seqs_Nil_step del: rmatch.simps)
  done

lemma country_group_forward:
  assumes "s1 \<in> set (rmatch False
       (Opt (Grp (seqs [Opt (Lit (CHR ''+'')), Rep 1 (Some 3) digit, Opt sep]))) n
       \<lparr>left = l, rest = r, caps = cs\<rparr>)"
  shows "\<exists>u t cs'. r = u @ t \<and> (u = [] \<or> country_code u)
      \<and> s1 = \<lparr>left = rev u @ l, rest = t, caps = cs'\<rparr>"
proof -
  from assms consider
      (code) s0 where "s0 \<in> set (rmatch False
          (seqs [Opt (Lit (CHR ''+'')), Rep 1 (Some 3) digit, Opt sep]) (Suc n)
          \<lparr>left = l, rest = r, caps = cs\<rparr>)"
        "s1 = s0\<lparr>caps := (n, consumed \<lparr>left = l, rest = r, caps = cs\<rparr> s0) # caps s0\<rparr>"
    | (none) "s1 = \<lparr>left = l, rest = r, caps = cs\<rparr>"
    unfolding set_rmatch_Opt set_rmatch_Grp by blast
  then show ?thesis
  proof cases
    case code
    from country_code_forward [OF code(1)] obtain u t where
      u: "r = u @ t" "country_code u" "s0 = \<lparr>left = rev u @ l, rest = t, caps = cs\<rparr>" by blast
    have "s1 = \<lparr>left = rev u @ l, rest = t,
                caps = (n, consumed \<lparr>left = l, rest = r, caps = cs\<rparr> s0) # cs\<rparr>"
      using code(2) u(3) by simp
    with u(1,2) show ?thesis by blast
  next
    case none
    have "r = [] @ r" by simp
    moreover have "s1 = \<lparr>left = rev [] @ l, rest = r, caps = cs\<rparr>" using none by simp
    ultimately show ?thesis by blast
  qed
qed

lemma country_group_backward:
  assumes "u = [] \<or> country_code u"
  shows "\<exists>cs'. \<lparr>left = rev u @ l, rest = t, caps = cs'\<rparr>
     \<in> set (rmatch False
          (Opt (Grp (seqs [Opt (Lit (CHR ''+'')), Rep 1 (Some 3) digit, Opt sep]))) n
          \<lparr>left = l, rest = u @ t, caps = cs\<rparr>)"
proof (cases "u = []")
  case True
  then have "\<lparr>left = rev u @ l, rest = t, caps = cs\<rparr> = \<lparr>left = l, rest = u @ t, caps = cs\<rparr>"
    by simp
  then show ?thesis unfolding set_rmatch_Opt by blast
next
  case False
  with assms have "country_code u" by simp
  from country_code_backward [OF this, of l t cs "Suc n"]
  have 0: "\<lparr>left = rev u @ l, rest = t, caps = cs\<rparr>
     \<in> set (rmatch False (seqs [Opt (Lit (CHR ''+'')), Rep 1 (Some 3) digit, Opt sep]) (Suc n)
          \<lparr>left = l, rest = u @ t, caps = cs\<rparr>)" .
  have "\<lparr>left = rev u @ l, rest = t,
         caps = (n, consumed \<lparr>left = l, rest = u @ t, caps = cs\<rparr>
                      \<lparr>left = rev u @ l, rest = t, caps = cs\<rparr>) # cs\<rparr>
      = \<lparr>left = rev u @ l, rest = t, caps = cs\<rparr>
          \<lparr>caps := (n, consumed \<lparr>left = l, rest = u @ t, caps = cs\<rparr>
                      \<lparr>left = rev u @ l, rest = t, caps = cs\<rparr>)
                   # caps \<lparr>left = rev u @ l, rest = t, caps = cs\<rparr>\<rparr>" by simp
  with 0 have "\<lparr>left = rev u @ l, rest = t,
         caps = (n, consumed \<lparr>left = l, rest = u @ t, caps = cs\<rparr>
                      \<lparr>left = rev u @ l, rest = t, caps = cs\<rparr>) # cs\<rparr>
     \<in> set (rmatch False (Grp (seqs [Opt (Lit (CHR ''+'')), Rep 1 (Some 3) digit, Opt sep])) n
          \<lparr>left = l, rest = u @ t, caps = cs\<rparr>)"
    unfolding set_rmatch_Grp by blast
  then show ?thesis unfolding set_rmatch_Opt by blast
qed

lemma phone_match_forward:
  assumes "m \<in> set (rmatch False phone_pattern n \<lparr>left = l, rest = q, caps = []\<rparr>)"
  shows "\<exists>x t. q = x @ t \<and> phone_shape x \<and> at_boundary (rev x @ l) t"
proof -
  from assms obtain s1 k where
    1: "s1 \<in> set (rmatch False
          (Opt (Grp (seqs [Opt (Lit (CHR ''+'')), Rep 1 (Some 3) digit, Opt sep]))) n
          \<lparr>left = l, rest = q, caps = []\<rparr>)"
    and 2: "m \<in> set (rmatch False
          (seqs [Opt (Lit (CHR ''('')), Times 3 digit, Opt (Lit (CHR '')'')), Opt sep,
                 Times 3 digit, Opt sep, Times 4 digit, Bnd]) k s1)"
    unfolding phone_pattern_def seqs_Cons_step [of _ _ "Opt (Grp _)"] by blast
  from country_group_forward [OF 1] obtain cc t0 cs' where
    cc: "q = cc @ t0" "cc = [] \<or> country_code cc"
      "s1 = \<lparr>left = rev cc @ l, rest = t0, caps = cs'\<rparr>" by blast
  from phone_tail_forward [OF 2 [unfolded cc(3)]] obtain lp a rp x1 b x2 c t where
    h: "t0 = lp @ a @ rp @ x1 @ b @ x2 @ c @ t"
      "lp = [] \<or> lp = ''(''" "digit_group 3 a" "rp = [] \<or> rp = '')''" "opt_sep x1"
      "digit_group 3 b" "opt_sep x2" "digit_group 4 c"
      "at_boundary (rev (lp @ a @ rp @ x1 @ b @ x2 @ c) @ rev cc @ l) t" by blast
  have "phone_shape (cc @ lp @ a @ rp @ x1 @ b @ x2 @ c)"
    unfolding phone_shape_def using cc(2) h(2-8) by blast
  moreover have "q = (cc @ lp @ a @ rp @ x1 @ b @ x2 @ c) @ t" using cc(1) h(1) by simp
  moreover have "at_boundary (rev (cc @ lp @ a @ rp @ x1 @ b @ x2 @ c) @ l) t"
    using h(9) by simp
  ultimately show ?thesis by blast
qed

lemma phone_match_backward:
  assumes "phone_shape x" and "at_boundary (rev x @ l) t"
  shows "\<exists>m. m \<in> set (rmatch False phone_pattern n \<lparr>left = l, rest = x @ t, caps = []\<rparr>)"
proof -
  from assms(1) obtain cc lp a rp x1 b x2 c where
    x: "x = cc @ lp @ a @ rp @ x1 @ b @ x2 @ c"
    and h: "cc = [] \<or> country_code cc"
      "lp = [] \<or> lp = ''(''" "digit_group 3 a" "rp = [] \<or> rp = '')''" "opt_sep x1"
      "digit_group 3 b" "opt_sep x2" "digit_group 4 c"
    unfolding phone_shape_def by blast
  from country_group_backward [OF h(1), of l "lp @ a @ rp @ x1 @ b @ x2 @ c @ t" n "[]"]
  obtain cs' where 1: "\<lparr>left = rev cc @ l, rest = lp @ a @ rp @ x1 @ b @ x2 @ c @ t, caps = cs'\<rparr>
     \<in> set (rmatch False
          (Opt (Grp (seqs [Opt (Lit (CHR ''+'')), Rep 1 (Some 3) digit, Opt sep]))) n
          \<lparr>left = l, rest = cc @ lp @ a @ rp @ x1 @ b @ x2 @ c @ t, caps = []\<rparr>)" by blast
  have b: "at_boundary (rev (lp @ a @ rp @ x1 @ b @ x2 @ c) @ rev cc @ l) t"
    using assms(2) x by simp
  note 2 = phone_tail_backward [OF h(2-8) b, of cs'
      "n + ngroups (Opt (Grp (seqs [Opt (Lit (CHR ''+'')), Rep 1 (Some 3) digit, Opt sep])))"]
  have "\<lparr>left = rev (lp @ a @ rp @ x1 @ b @ x2 @ c) @ rev cc @ l, rest = t, caps = cs'\<rparr>
     \<in> set (rmatch False phone_pattern n
          \<lparr>left = l, rest = cc @ lp @ a @ rp @ x1 @ b @ x2 @ c @ t, caps = []\<rparr>)"
    unfolding phone_pattern_def by (rule seqs_ConsI [OF 1 2])
  then show ?thesis using x by auto
qed

lemma phone_shape_ends_word:
  assumes "phone_shape x"
  shows "word_at (rev x @ l)"
proof -
  from assms obtain y c where x: "x = y @ c" and c: "digit_group 4 c"
    unfolding phone_shape_def by (metis append.assoc)
  from c obtain u d where "c = u @ [d]" "is_digit d"
    by (cases c rule: rev_cases) (auto simp: digit_group_def)
  then show ?thesis using x by (simp add: word_at_def digit_is_word)
qed

text \<open>
  The filter of lines 57 to 60 is a search: it accepts a line when some part of the line has the
  phone-number shape and no word character stands directly behind that part (the pattern ends
  with \<^verbatim>\<open>\b\<close>, and the shape ends with a digit). What stands before the part does not matter.
\<close>

lemma phone_filter_iff:
  "is_likely_phone_number line
     \<longleftrightarrow> (\<exists>p x t. line = p @ x @ t \<and> phone_shape x \<and> \<not> word_at t)"
proof
  assume "is_likely_phone_number line"
  then obtain m where "re_search False phone_pattern line = Some m"
    unfolding is_likely_phone_number_def by blast
  from re_search_Some [OF this] obtain p q where pq: "line = p @ q"
    "m \<in> set (rmatch False phone_pattern 1 \<lparr>left = rev p, rest = q, caps = []\<rparr>)" by blast
  from phone_match_forward [OF pq(2)] obtain x t where
    x: "q = x @ t" "phone_shape x" "at_boundary (rev x @ rev p) t" by blast
  have "\<not> word_at t" using x(3) phone_shape_ends_word [OF x(2), of "rev p"]
    by (simp add: at_boundary_def)
  with pq(1) x(1,2) show "\<exists>p x t. line = p @ x @ t \<and> phone_shape x \<and> \<not> word_at t" by blast
next
  assume "\<exists>p x t. line = p @ x @ t \<and> phone_shape x \<and> \<not> word_at t"
  then obtain p x t where h: "line = p @ x @ t" "phone_shape x" "\<not> word_at t" by blast
  have "at_boundary (rev x @ rev p) t"
    using h(3) phone_shape_ends_word [OF h(2), of "rev p"] by (simp add: at_boundary_def)
  from phone_match_backward [OF h(2) this, of 1] obtain m where
    "m \<in> set (rmatch False phone_pattern 1 \<lparr>left = rev p, rest = x @ t, caps = []\<rparr>)" by blast
  from re_search_found [OF this] show "is_likely_phone_number line"
    unfolding is_likely_phone_number_def using h(1) by auto
qed


lemma digit_run_phone_shape: "digit_run x \<Longrightarrow> phone_shape x"
proof -
  assume "digit_run x"
  then obtain a s1 b s2 c where "x = [] @ [] @ a @ [] @ s1 @ b @ s2 @ c"
    "digit_group 3 a" "opt_sep s1" "digit_group 3 b" "opt_sep s2" "digit_group 4 c"
    unfolding digit_run_def by auto
  then show ?thesis unfolding phone_shape_def by blast
qed

lemma phone_line_skipped:
  "is_likely_phone_number (strip raw) \<Longrightarrow>
     \<not> name_line raw \<and> \<not> detail_line raw \<and> process_line st raw = Inr st"
  by (simp add: name_line_def detail_line_def skipped_line_def process_skipped)




text \<open>
  Claim C10 says that every line containing a run of three, three and four digits is discarded.
  The line \<^verbatim>\<open>100 200 10000\<close> contains the run \<^verbatim>\<open>100 200 1000\<close>, but a digit follows the run, the
  filter does not recognise the line, and with a pending name the line yields a record.
\<close>

theorem digit_run_counterexample:
  "strip ''100 200 10000'' = [] @ ''100 200 1000'' @ ''0''
   \<and> digit_run ''100 200 1000''
   \<and> \<not> is_likely_phone_number (strip ''100 200 10000'')
   \<and> detail_line ''100 200 10000''
   \<and> process_line \<lparr>medicines = [], current_medicine_name = Some ''Aspirin''\<rparr> ''100 200 10000''
       = Inr \<lparr>medicines = [\<lparr>name = ''Aspirin'', dosage = ''100'',
                               frequency = ''Not specified''\<rparr>],
              current_medicine_name = None\<rparr>"
proof -
  have "strip ''100 200 10000'' = [] @ ''100 200 1000'' @ ''0''" by code_simp
  moreover have "digit_run ''100 200 1000''"
    unfolding digit_run_def
    by (rule exI [of _ "''100''"], rule exI [of _ "'' ''"], rule exI [of _ "''200''"],
        rule exI [of _ "'' ''"], rule exI [of _ "''1000''"])
      (simp add: digit_group_def opt_sep_def is_digit_def is_space_def)
  moreover have "\<not> is_likely_phone_number (strip ''100 200 10000'')" by code_simp
  moreover have "detail_line ''100 200 10000''" by code_simp
  moreover have "process_line \<lparr>medicines = [], current_medicine_name = Some ''Aspirin''\<rparr>
       ''100 200 10000''
       = Inr \<lparr>medicines = [\<lparr>name = ''Aspirin'', dosage = ''100'',
                               frequency = ''Not specified''\<rparr>],
              current_medicine_name = None\<rparr>" by code_simp
  ultimately show ?thesis by blast
qed

text \<open>
  Claim C10, with the word boundary of the pattern. If the trimmed line contains anywhere a run
  of three, three and four digits with optional separators between the groups, and no word
  character stands directly behind the run, then the filter recognises the line, whatever else
  the line holds: the line is neither a name line nor a detail line, and the records and the
  pending name stay as they are.
\<close>

theorem digit_run_discards_line:
  assumes "strip raw = p @ x @ t" and "digit_run x" and "\<not> word_at t"
  shows "is_likely_phone_number (strip raw)
     \<and> \<not> name_line raw \<and> \<not> detail_line raw \<and> process_line st raw = Inr st"
proof -
  have "phone_shape x" using assms(2) by (rule digit_run_phone_shape)
  with assms(1,3) have "is_likely_phone_number (strip raw)"
    unfolding phone_filter_iff by blast
  then show ?thesis using phone_line_skipped [of raw st] by blast
qed

theorem digit_run_discards_line_witness:
  "strip ''Take 100 200 1000 mg'' = ''Take '' @ ''100 200 1000'' @ '' mg''
   \<and> digit_run ''100 200 1000''
   \<and> \<not> word_at '' mg''
   \<and> is_likely_phone_number (strip ''Take 100 200 1000 mg'')
   \<and> \<not> name_line ''Take 100 200 1000 mg'' \<and> \<not> detail_line ''Take 100 200 1000 mg''
   \<and> process_line \<lparr>medicines = [], current_medicine_name = Some ''Aspirin''\<rparr>
        ''Take 100 200 1000 mg''
       = Inr \<lparr>medicines = [], current_medicine_name = Some ''Aspirin''\<rparr>"
proof -
  have h1: "strip ''Take 100 200 1000 mg'' = ''Take '' @ ''100 200 1000'' @ '' mg''"
    by code_simp
  have h2: "digit_run ''100 200 1000''"
    unfolding digit_run_def
    by (rule exI [of _ "''100''"], rule exI [of _ "'' ''"], rule exI [of _ "''200''"],
        rule exI [of _ "'' ''"], rule exI [of _ "''1000''"])
      (simp add: digit_group_def opt_sep_def is_digit_def is_space_def)
  have h3: "\<not> word_at '' mg''"
    by (simp add: word_at_def is_word_def is_digit_def is_upper_def is_lower_def
        is_latin_alnum_def)
  from digit_run_discards_line [OF h1 h2 h3,
      of "\<lparr>medicines = [], current_medicine_name = Some ''Aspirin''\<rparr>"] h1 h2 h3
  show ?thesis by blast
qed

end
